theory Spec2Isabelle
  imports Main "HOL-Library.AList" "HOL-Library.Char_ord" "HOL-Library.List_Lexorder"
begin

section \<open>The crossword solver of generate.py\<close>

text \<open>
  The solver of \<^verbatim>\<open>src/generate.py\<close> (class \<^verbatim>\<open>CrosswordCreator\<close>) fills a crossword by
  constraint satisfaction: node consistency, AC-3, and a backtracking search.

  Data, as the Python has it:
  \<^item> a \<^verbatim>\<open>Variable\<close> (a slot) is the tuple of its row, column, direction and length;
  \<^item> \<^verbatim>\<open>self.crossword\<close> comes from the module \<^verbatim>\<open>crossword\<close>, which is not part of the
    sources; its attributes \<^verbatim>\<open>variables\<close>, \<^verbatim>\<open>words\<close>, \<^verbatim>\<open>overlaps\<close> and its method
    \<^verbatim>\<open>neighbors\<close> are taken as parameters (the fields of the record \<open>crossword\<close>);
  \<^item> a Python set is a list without duplicates, in the order the set is iterated; a Python
    dict is an association list with distinct keys, in insertion order;
  \<^item> \<^verbatim>\<open>self.domains\<close>, the only mutable state, is passed in and returned;
  \<^item> every exception the code can raise is a value of \<open>error\<close>.
\<close>

subsection \<open>Data model\<close>

datatype direction = ACROSS | DOWN

datatype variable =
  Variable (var_i: nat) (var_j: nat) (var_direction: direction) (var_length: nat)

datatype error = KeyError | TypeError | IndexError | UnboundLocalError

text \<open>
  \<open>overlaps cw (x, y)\<close> is the dict lookup \<^verbatim>\<open>self.crossword.overlaps[x, y]\<close>: \<open>None\<close> when the
  key is missing (Python raises KeyError), \<open>Some None\<close> when the entry is Python's
  \<^verbatim>\<open>None\<close>, \<open>Some (Some (p, q))\<close> when the entry is the pair of offsets. The offsets are list
  indices of the cells of a slot, so they are natural numbers.
\<close>

record crossword =
  variables :: "variable list"
  words :: "string list"
  overlaps :: "variable \<times> variable \<Rightarrow> (nat \<times> nat) option option"
  neighbors :: "variable \<Rightarrow> variable list"

type_synonym domains = "(variable \<times> string list) list"

type_synonym assignment = "(variable \<times> string) list"

type_synonym arc = "variable \<times> variable"

text \<open>\<^verbatim>\<open>word[k]\<close> for a non-negative index: IndexError out of range.\<close>

definition char_at :: "string \<Rightarrow> nat \<Rightarrow> error + char" where
  "char_at w k = (if k < length w then Inr (w ! k) else Inl IndexError)"

text \<open>\<^verbatim>\<open>s.remove(w)\<close> on a set: KeyError when \<open>w\<close> is not a member.\<close>

definition set_remove :: "string \<Rightarrow> string list \<Rightarrow> error + string list" where
  "set_remove w ws = (if w \<in> set ws then Inr (removeAll w ws) else Inl KeyError)"

text \<open>\<^verbatim>\<open>self.domains[var].remove(word)\<close>.\<close>

definition domain_remove :: "domains \<Rightarrow> variable \<Rightarrow> string \<Rightarrow> error + domains" where
  "domain_remove doms var word =
     (case map_of doms var of
        None \<Rightarrow> Inl KeyError
      | Some ws \<Rightarrow>
          (case set_remove word ws of
             Inl e \<Rightarrow> Inl e
           | Inr ws' \<Rightarrow> Inr (AList.update var ws' doms)))"

text \<open>
  \<^verbatim>\<open>__init__\<close>: the dict comprehension
  \<^verbatim>\<open>{var: self.crossword.words.copy() for var in self.crossword.variables}\<close>.
\<close>

definition init_domains :: "crossword \<Rightarrow> domains" where
  "init_domains cw = fold (\<lambda>var doms. AList.update var (words cw) doms) (variables cw) []"

subsection \<open>Node consistency\<close>

text \<open>
  \<^verbatim>\<open>enforce_node_consistency\<close> walks a deep copy of the domains and removes from the live
  domains every word whose length differs from the slot's. \<open>enc_words\<close> is the inner loop
  (over the copied words of one slot), \<open>enc_vars\<close> the outer loop (over the items of the
  copy); the last argument is the live \<^verbatim>\<open>self.domains\<close>.
\<close>

fun enc_words :: "variable \<Rightarrow> string list \<Rightarrow> domains \<Rightarrow> error + domains" where
  "enc_words var [] doms = Inr doms"
| "enc_words var (word # rest) doms =
     (if length word \<noteq> var_length var
      then (case domain_remove doms var word of
              Inl e \<Rightarrow> Inl e
            | Inr doms' \<Rightarrow> enc_words var rest doms')
      else enc_words var rest doms)"

fun enc_vars :: "domains \<Rightarrow> domains \<Rightarrow> error + domains" where
  "enc_vars [] doms = Inr doms"
| "enc_vars ((var, ws) # rest) doms =
     (case enc_words var ws doms of
        Inl e \<Rightarrow> Inl e
      | Inr doms' \<Rightarrow> enc_vars rest doms')"

definition enforce_node_consistency :: "domains \<Rightarrow> error + domains" where
  "enforce_node_consistency doms = (let domain = doms in enc_vars domain doms)"

subsection \<open>Arc consistency\<close>

text \<open>
  The inner loop of \<^verbatim>\<open>revise\<close>: does some word of \<open>y\<close>'s copied domain agree with
  \<open>x_word\<close> at the offsets? It stops at the first match (\<^verbatim>\<open>break\<close>).
\<close>

fun find_match :: "string \<Rightarrow> nat \<Rightarrow> nat \<Rightarrow> string list \<Rightarrow> error + bool" where
  "find_match x_word x_overlap y_overlap [] = Inr False"
| "find_match x_word x_overlap y_overlap (y_word # rest) =
     (case char_at x_word x_overlap of
        Inl e \<Rightarrow> Inl e
      | Inr a \<Rightarrow>
          (case char_at y_word y_overlap of
             Inl e \<Rightarrow> Inl e
           | Inr b \<Rightarrow> if a = b then Inr True else find_match x_word x_overlap y_overlap rest))"

text \<open>
  The outer loop of \<^verbatim>\<open>revise\<close>, over the words of \<open>x\<close>'s copied domain; \<open>domain\<close> is
  the deep copy, \<open>doms\<close> the live domains, \<open>revised\<close> the flag. The live domains are
  returned with an exception too: what was removed before it stays removed.
\<close>

fun revise_words ::
  "domains \<Rightarrow> variable \<Rightarrow> variable \<Rightarrow> nat \<Rightarrow> nat \<Rightarrow> string list \<Rightarrow> domains \<Rightarrow> bool
     \<Rightarrow> (error + bool) \<times> domains" where
  "revise_words domain x y x_overlap y_overlap [] doms revised = (Inr revised, doms)"
| "revise_words domain x y x_overlap y_overlap (x_word # rest) doms revised =
     (case map_of domain y of
        None \<Rightarrow> (Inl KeyError, doms)
      | Some y_words \<Rightarrow>
          (case find_match x_word x_overlap y_overlap y_words of
             Inl e \<Rightarrow> (Inl e, doms)
           | Inr matched \<Rightarrow>
               if matched then revise_words domain x y x_overlap y_overlap rest doms revised
               else (case domain_remove doms x x_word of
                       Inl e \<Rightarrow> (Inl e, doms)
                     | Inr doms' \<Rightarrow>
                         revise_words domain x y x_overlap y_overlap rest doms' True)))"

text \<open>
  \<^verbatim>\<open>revise(x, y)\<close>. The tuple assignment \<^verbatim>\<open>x_overlap, y_overlap = overlaps[x, y]\<close> raises
  KeyError on a missing key and TypeError on \<^verbatim>\<open>None\<close>; the test \<^verbatim>\<open>if x_overlap:\<close> is the
  truth value of an integer, false exactly at 0.
\<close>

definition revise :: "crossword \<Rightarrow> domains \<Rightarrow> variable \<Rightarrow> variable \<Rightarrow> (error + bool) \<times> domains" where
  "revise cw doms x y =
     (let domain = doms in
      case overlaps cw (x, y) of
        None \<Rightarrow> (Inl KeyError, doms)
      | Some None \<Rightarrow> (Inl TypeError, doms)
      | Some (Some (x_overlap, y_overlap)) \<Rightarrow>
          if x_overlap \<noteq> 0 then
            (case map_of domain x of
               None \<Rightarrow> (Inl KeyError, doms)
             | Some x_words \<Rightarrow> revise_words domain x y x_overlap y_overlap x_words doms False)
          else (Inr False, doms))"

text \<open>
  The initial queue of \<^verbatim>\<open>ac3\<close>: for every slot of the domains, in order, every neighbour
  whose overlap is not \<^verbatim>\<open>None\<close>, appended.
\<close>

fun arcs_from :: "crossword \<Rightarrow> variable \<Rightarrow> variable list \<Rightarrow> arc list \<Rightarrow> error + arc list" where
  "arcs_from cw var_1 [] queue = Inr queue"
| "arcs_from cw var_1 (var_2 # rest) queue =
     (case overlaps cw (var_1, var_2) of
        None \<Rightarrow> Inl KeyError
      | Some ov \<Rightarrow>
          arcs_from cw var_1 rest (if ov \<noteq> None then queue @ [(var_1, var_2)] else queue))"

fun all_arcs :: "crossword \<Rightarrow> variable list \<Rightarrow> arc list \<Rightarrow> error + arc list" where
  "all_arcs cw [] queue = Inr queue"
| "all_arcs cw (var_1 # rest) queue =
     (case arcs_from cw var_1 (neighbors cw var_1) queue of
        Inl e \<Rightarrow> Inl e
      | Inr queue' \<Rightarrow> all_arcs cw rest queue')"

text \<open>The total number of candidate words: what a revision decreases.\<close>

definition domains_size :: "domains \<Rightarrow> nat" where
  "domains_size doms = sum_list (map (\<lambda>item. length (snd item)) doms)"

text \<open>A revision only removes words, and it removes one whenever it reports a change.\<close>

lemma domains_size_update:
  "map_of doms x = Some ws \<Longrightarrow>
   domains_size (AList.update x ws' doms) + length ws = domains_size doms + length ws'"
  by (induction doms) (auto simp: domains_size_def)

lemma set_remove_length:
  "set_remove w ws = Inr ws' \<Longrightarrow> length ws' < length ws"
  by (auto simp: set_remove_def length_removeAll_less split: if_splits)

lemma domain_remove_size:
  "domain_remove doms x w = Inr doms' \<Longrightarrow> domains_size doms' < domains_size doms"
proof -
  assume a: "domain_remove doms x w = Inr doms'"
  then obtain ws ws' where m: "map_of doms x = Some ws" and r: "set_remove w ws = Inr ws'"
    and d: "doms' = AList.update x ws' doms"
    by (auto simp: domain_remove_def split: option.splits sum.splits)
  from domains_size_update[OF m, of ws'] set_remove_length[OF r] d show ?thesis by simp
qed

lemma revise_words_size:
  "revise_words domain x y p q xs doms revised = (r, doms') \<Longrightarrow>
   domains_size doms' \<le> domains_size doms \<and>
   (r = Inr True \<longrightarrow> revised \<or> domains_size doms' < domains_size doms) \<and>
   (r = Inr False \<longrightarrow> doms' = doms \<and> \<not> revised)"
proof (induction xs arbitrary: doms revised)
  case Nil
  then show ?case by auto
next
  case (Cons x_word rest)
  show ?case
  proof (cases "map_of domain y")
    case None
    with Cons.prems show ?thesis by auto
  next
    case (Some y_words)
    show ?thesis
    proof (cases "find_match x_word p q y_words")
      case (Inl e)
      with Some Cons.prems show ?thesis by auto
    next
      case (Inr matched)
      show ?thesis
      proof (cases matched)
        case True
        with Some Inr Cons.prems Cons.IH[of doms revised] show ?thesis by simp
      next
        case False
        show ?thesis
        proof (cases "domain_remove doms x x_word")
          case (Inl e)
          with Some Inr False Cons.prems show ?thesis by auto
        next
          case rem: (Inr d1)
          from Some Inr False rem Cons.prems
          have "revise_words domain x y p q rest d1 True = (r, doms')" by simp
          from Cons.IH[OF this] domain_remove_size[OF rem] show ?thesis by auto
        qed
      qed
    qed
  qed
qed

lemma revise_size:
  "revise cw doms x y = (r, doms') \<Longrightarrow>
   domains_size doms' \<le> domains_size doms \<and>
   (r = Inr True \<longrightarrow> domains_size doms' < domains_size doms) \<and>
   (r = Inr False \<longrightarrow> doms' = doms)"
  by (auto simp: revise_def Let_def split: option.splits if_splits prod.splits
      dest: revise_words_size)

text \<open>
  The \<^verbatim>\<open>while\<close> loop of \<^verbatim>\<open>ac3\<close>. \<^verbatim>\<open>queue.pop()\<close> takes the last arc of the list. The
  loop ends because every pass either removes a word or shortens the queue.
\<close>

function ac3_loop :: "crossword \<Rightarrow> domains \<Rightarrow> arc list \<Rightarrow> (error + bool) \<times> domains" where
  "ac3_loop cw doms queue =
     (if length queue = 0 then (Inr True, doms)
      else
        (let (x, y) = last queue; queue' = butlast queue in
         case revise cw doms x y of
           (Inl e, doms') \<Rightarrow> (Inl e, doms')
         | (Inr revised, doms') \<Rightarrow>
             if revised then
               (case map_of doms' x of
                  None \<Rightarrow> (Inl KeyError, doms')
                | Some x_words \<Rightarrow>
                    if length x_words = 0 then (Inr False, doms')
                    else ac3_loop cw doms'
                           (queue' @ map (\<lambda>neighbor. (neighbor, x))
                                        (filter (\<lambda>neighbor. neighbor \<noteq> y) (neighbors cw x))))
             else ac3_loop cw doms' queue'))"
  by pat_completeness auto
termination
  by (relation "measures [\<lambda>(cw, doms, queue). domains_size doms,
                           \<lambda>(cw, doms, queue). length queue]")
     (auto dest: revise_size[OF sym])

declare ac3_loop.simps [simp del]

text \<open>
  \<^verbatim>\<open>ac3(arcs=None)\<close>. The queue is only bound when \<^verbatim>\<open>arcs\<close> is \<^verbatim>\<open>None\<close>; with an explicit
  arc list the \<^verbatim>\<open>while\<close> test reads an unbound local.
\<close>

definition ac3 :: "crossword \<Rightarrow> domains \<Rightarrow> arc list option \<Rightarrow> (error + bool) \<times> domains" where
  "ac3 cw doms arcs =
     (case arcs of
        Some _ \<Rightarrow> (Inl UnboundLocalError, doms)
      | None \<Rightarrow>
          (case all_arcs cw (map fst doms) [] of
             Inl e \<Rightarrow> (Inl e, doms)
           | Inr queue \<Rightarrow> ac3_loop cw doms queue))"

subsection \<open>Assignments\<close>

definition assignment_complete :: "domains \<Rightarrow> assignment \<Rightarrow> bool" where
  "assignment_complete doms assignment =
     (\<not> list_ex (\<lambda>var. map_of assignment var = None) (map fst doms))"

text \<open>
  The third loop of \<^verbatim>\<open>consistent\<close>: \<open>conflict_neighbors\<close> walks the neighbours of one
  assigned slot, \<open>conflict_vars\<close> the assigned slots; the result \<open>True\<close> is the early
  \<^verbatim>\<open>return False\<close> at two different characters.
\<close>

fun conflict_neighbors :: "crossword \<Rightarrow> assignment \<Rightarrow> variable \<Rightarrow> variable list \<Rightarrow> error + bool" where
  "conflict_neighbors cw assignment var [] = Inr False"
| "conflict_neighbors cw assignment var (neighbor # rest) =
     (case map_of assignment neighbor of
        None \<Rightarrow> conflict_neighbors cw assignment var rest
      | Some neighbor_word \<Rightarrow>
          (case overlaps cw (var, neighbor) of
             None \<Rightarrow> Inl KeyError
           | Some None \<Rightarrow> Inl TypeError
           | Some (Some (x, y)) \<Rightarrow>
               (case map_of assignment var of
                  None \<Rightarrow> Inl KeyError
                | Some var_word \<Rightarrow>
                    (case char_at var_word x of
                       Inl e \<Rightarrow> Inl e
                     | Inr a \<Rightarrow>
                         (case char_at neighbor_word y of
                            Inl e \<Rightarrow> Inl e
                          | Inr b \<Rightarrow>
                              if a \<noteq> b then Inr True
                              else conflict_neighbors cw assignment var rest)))))"

fun conflict_vars :: "crossword \<Rightarrow> assignment \<Rightarrow> variable list \<Rightarrow> error + bool" where
  "conflict_vars cw assignment [] = Inr False"
| "conflict_vars cw assignment (var # rest) =
     (case conflict_neighbors cw assignment var (neighbors cw var) of
        Inl e \<Rightarrow> Inl e
      | Inr conflict \<Rightarrow> if conflict then Inr True else conflict_vars cw assignment rest)"

text \<open>
  \<^verbatim>\<open>consistent(assignment)\<close>: the values are distinct (\<^verbatim>\<open>vals.count(val) > 1\<close> returns
  False), every value has its slot's length, and no two neighbouring values conflict.
\<close>

definition consistent :: "crossword \<Rightarrow> assignment \<Rightarrow> error + bool" where
  "consistent cw assignment =
     (let vals = map snd assignment in
      if list_ex (\<lambda>val. count_list vals val > 1) vals then Inr False
      else if list_ex (\<lambda>(var, word). var_length var \<noteq> length word) assignment then Inr False
      else (case conflict_vars cw assignment (map fst assignment) of
              Inl e \<Rightarrow> Inl e
            | Inr conflict \<Rightarrow> Inr (\<not> conflict)))"

subsection \<open>Ordering heuristics\<close>

text \<open>
  \<^verbatim>\<open>order_domain_values\<close>: \<open>count_ruled_out\<close> is the loop over the words of one neighbour,
  \<open>count_neighbors\<close> the loop over the neighbours, \<open>value_counts\<close> the loop over the words of
  \<open>var\<close>, which fills the dict \<^verbatim>\<open>ordered_values\<close> (word to count). The result is
  \<^verbatim>\<open>sorted(ordered_values)\<close>: the sorted keys of that dict.
\<close>

fun count_ruled_out :: "string \<Rightarrow> nat \<Rightarrow> nat \<Rightarrow> string list \<Rightarrow> nat \<Rightarrow> error + nat" where
  "count_ruled_out word x y [] count = Inr count"
| "count_ruled_out word x y (neighbor_word # rest) count =
     (case char_at word x of
        Inl e \<Rightarrow> Inl e
      | Inr a \<Rightarrow>
          (case char_at neighbor_word y of
             Inl e \<Rightarrow> Inl e
           | Inr b \<Rightarrow> count_ruled_out word x y rest (if a \<noteq> b then count + 1 else count)))"

fun count_neighbors ::
  "crossword \<Rightarrow> domains \<Rightarrow> assignment \<Rightarrow> variable \<Rightarrow> string \<Rightarrow> variable list \<Rightarrow> nat \<Rightarrow> error + nat" where
  "count_neighbors cw doms assignment var word [] count = Inr count"
| "count_neighbors cw doms assignment var word (neighbor # rest) count =
     (if map_of assignment neighbor \<noteq> None
      then count_neighbors cw doms assignment var word rest count
      else
        (case overlaps cw (var, neighbor) of
           None \<Rightarrow> Inl KeyError
         | Some None \<Rightarrow> Inl TypeError
         | Some (Some (x, y)) \<Rightarrow>
             (case map_of doms neighbor of
                None \<Rightarrow> Inl KeyError
              | Some neighbor_words \<Rightarrow>
                  (case count_ruled_out word x y neighbor_words count of
                     Inl e \<Rightarrow> Inl e
                   | Inr count' \<Rightarrow> count_neighbors cw doms assignment var word rest count'))))"

fun value_counts ::
  "crossword \<Rightarrow> domains \<Rightarrow> assignment \<Rightarrow> variable \<Rightarrow> string list \<Rightarrow> (string \<times> nat) list
     \<Rightarrow> error + (string \<times> nat) list" where
  "value_counts cw doms assignment var [] ordered_values = Inr ordered_values"
| "value_counts cw doms assignment var (word # rest) ordered_values =
     (case count_neighbors cw doms assignment var word (neighbors cw var) 0 of
        Inl e \<Rightarrow> Inl e
      | Inr count \<Rightarrow>
          value_counts cw doms assignment var rest (AList.update word count ordered_values))"

definition order_domain_values ::
  "crossword \<Rightarrow> domains \<Rightarrow> variable \<Rightarrow> assignment \<Rightarrow> error + string list" where
  "order_domain_values cw doms var assignment =
     (case map_of doms var of
        None \<Rightarrow> Inl KeyError
      | Some var_words \<Rightarrow>
          (case value_counts cw doms assignment var var_words [] of
             Inl e \<Rightarrow> Inl e
           | Inr ordered_values \<Rightarrow> Inr (sort (map fst ordered_values))))"

text \<open>
  \<^verbatim>\<open>select_unassigned_variable\<close>: the unassigned items of the domains, sorted by the size of
  the domain (Python's \<^verbatim>\<open>sorted\<close> is stable, as \<open>sort_key\<close> is), and the first key of the
  sorted list; IndexError when the list is empty.
\<close>

definition select_unassigned_variable :: "domains \<Rightarrow> assignment \<Rightarrow> error + variable" where
  "select_unassigned_variable doms assignment =
     (let unassigned_variables = filter (\<lambda>(var, ws). map_of assignment var = None) doms;
          sorted_list = map fst (sort_key (\<lambda>item. length (snd item)) unassigned_variables)
      in case sorted_list of [] \<Rightarrow> Inl IndexError | var # _ \<Rightarrow> Inr var)"

lemma select_unassigned_variable_unassigned:
  assumes "select_unassigned_variable doms assignment = Inr var"
  shows "var \<in> fst ` set doms \<and> var \<notin> fst ` set assignment"
proof -
  let ?u = "filter (\<lambda>(var, ws). map_of assignment var = None) doms"
  from assms obtain ws rest where "sort_key (\<lambda>item. length (snd item)) ?u = (var, ws) # rest"
    by (auto simp: select_unassigned_variable_def Let_def split: list.splits)
  then have "(var, ws) \<in> set (sort_key (\<lambda>item. length (snd item)) ?u)" by simp
  then have "(var, ws) \<in> set ?u" by (simp only: set_sort)
  then have "(var, ws) \<in> set doms" and "map_of assignment var = None" by auto
  then show ?thesis by (force simp: map_of_eq_None_iff)
qed

subsection \<open>Backtracking search\<close>

text \<open>
  The \<^verbatim>\<open>for value in ...\<close> loop of \<^verbatim>\<open>backtrack\<close>: the first candidate whose branch returns
  an assignment ends the loop; an exception ends it too. The number threaded through is
  not in the Python: it counts the invocations of \<^verbatim>\<open>backtrack\<close>, so that "how much was
  searched" can be stated.
\<close>

fun try_each ::
  "('v \<Rightarrow> error + ('r option \<times> nat)) \<Rightarrow> 'v list \<Rightarrow> nat \<Rightarrow> error + ('r option \<times> nat)" where
  "try_each branch [] calls = Inr (None, calls)"
| "try_each branch (v # rest) calls =
     (case branch v of
        Inl e \<Rightarrow> Inl e
      | Inr (Some result, k) \<Rightarrow> Inr (Some result, calls + k)
      | Inr (None, k) \<Rightarrow> try_each branch rest (calls + k))"

text \<open>
  \<^verbatim>\<open>backtrack(assignment)\<close>, with the number of invocations of \<^verbatim>\<open>backtrack\<close> it took (this
  one and all the recursive ones). \<^verbatim>\<open>assignment_copy[var] = value\<close> on the copied dict is
  \<open>AList.update\<close>: a new key goes last.
\<close>

function backtrack_calls ::
  "crossword \<Rightarrow> domains \<Rightarrow> assignment \<Rightarrow> error + (assignment option \<times> nat)" where
  "backtrack_calls cw doms assignment =
     (if length assignment = length doms then Inr (Some assignment, 1)
      else
        (case select_unassigned_variable doms assignment of
           Inl e \<Rightarrow> Inl e
         | Inr var \<Rightarrow>
             (case order_domain_values cw doms var assignment of
                Inl e \<Rightarrow> Inl e
              | Inr vals \<Rightarrow>
                  try_each
                    (\<lambda>v. let assignment_copy = AList.update var v assignment in
                         case consistent cw assignment_copy of
                           Inl e \<Rightarrow> Inl e
                         | Inr ok \<Rightarrow>
                             if ok then backtrack_calls cw doms assignment_copy
                             else Inr (None, 0))
                    vals 1)))"
  by pat_completeness auto
termination
proof (relation "measure (\<lambda>(cw, doms, assignment). card (fst ` set doms - fst ` set assignment))")
  show "wf (measure (\<lambda>(cw, doms, assignment). card (fst ` set doms - fst ` set assignment)))"
    by simp
next
  fix cw :: crossword and doms :: domains and assignment :: assignment
    and var v assignment_copy
  assume sel: "select_unassigned_variable doms assignment = Inr var"
    and cp: "assignment_copy = AList.update var v assignment"
  from select_unassigned_variable_unassigned[OF sel]
  have mem: "var \<in> fst ` set doms - fst ` set assignment" by simp
  have fin: "finite (fst ` set doms - fst ` set assignment)" by simp
  have "fst ` set doms - fst ` set assignment_copy
      = (fst ` set doms - fst ` set assignment) - {var}"
    unfolding cp by (auto simp: dom_update)
  with card_Diff1_less[OF fin mem]
  have "card (fst ` set doms - fst ` set assignment_copy)
      < card (fst ` set doms - fst ` set assignment)"
    by simp
  then show "((cw, doms, assignment_copy), cw, doms, assignment)
      \<in> measure (\<lambda>(cw, doms, assignment). card (fst ` set doms - fst ` set assignment))"
    by simp
qed

declare backtrack_calls.simps [simp del]

text \<open>\<^verbatim>\<open>backtrack(assignment)\<close>: what the Python returns.\<close>

definition backtrack :: "crossword \<Rightarrow> domains \<Rightarrow> assignment \<Rightarrow> error + assignment option" where
  "backtrack cw doms assignment =
     (case backtrack_calls cw doms assignment of
        Inl e \<Rightarrow> Inl e
      | Inr (result, calls) \<Rightarrow> Inr result)"

text \<open>
  \<^verbatim>\<open>solve()\<close> on a creator whose domains are \<open>doms\<close>: node consistency, AC-3 (its return
  value is dropped), then \<^verbatim>\<open>backtrack(dict())\<close>. \<open>solve_calls\<close> also gives the number of
  invocations of \<^verbatim>\<open>backtrack\<close>.
\<close>

definition solve_calls :: "crossword \<Rightarrow> domains \<Rightarrow> error + (assignment option \<times> nat)" where
  "solve_calls cw doms =
     (case enforce_node_consistency doms of
        Inl e \<Rightarrow> Inl e
      | Inr doms1 \<Rightarrow>
          (case ac3 cw doms1 None of
             (Inl e, doms2) \<Rightarrow> Inl e
           | (Inr _, doms2) \<Rightarrow> backtrack_calls cw doms2 []))"

definition solve :: "crossword \<Rightarrow> domains \<Rightarrow> error + assignment option" where
  "solve cw doms =
     (case solve_calls cw doms of
        Inl e \<Rightarrow> Inl e
      | Inr (result, calls) \<Rightarrow> Inr result)"

subsection \<open>Well-formed inputs and examples\<close>

text \<open>
  What the absent module \<^verbatim>\<open>crossword\<close> guarantees of its data: the slots and the words
  are sets; \<^verbatim>\<open>overlaps\<close> has an entry for every ordered pair of different slots and no
  other; an entry with offsets is symmetric and its offsets are within the two slots'
  lengths; \<^verbatim>\<open>neighbors(u)\<close> is the set of the slots whose overlap with \<open>u\<close> is not
  \<^verbatim>\<open>None\<close>.
\<close>

definition wf_crossword :: "crossword \<Rightarrow> bool" where
  "wf_crossword cw \<longleftrightarrow>
     distinct (variables cw) \<and> distinct (words cw) \<and>
     (\<forall>u \<in> set (variables cw).
        set (neighbors cw u) \<subseteq> set (variables cw) \<and>
        (\<forall>v \<in> set (variables cw).
           (case overlaps cw (u, v) of
              None \<Rightarrow> u = v \<and> v \<notin> set (neighbors cw u)
            | Some None \<Rightarrow>
                u \<noteq> v \<and> v \<notin> set (neighbors cw u) \<and> overlaps cw (v, u) = Some None
            | Some (Some (p, q)) \<Rightarrow>
                u \<noteq> v \<and> v \<in> set (neighbors cw u) \<and> p < var_length u \<and> q < var_length v \<and>
                overlaps cw (v, u) = Some (Some (q, p)))))"

text \<open>The domains of a creator for \<open>cw\<close>: a dict over the slots, every value a set.\<close>

definition wf_domains :: "crossword \<Rightarrow> domains \<Rightarrow> bool" where
  "wf_domains cw doms \<longleftrightarrow>
     distinct (map fst doms) \<and> set (map fst doms) = set (variables cw) \<and>
     (\<forall>(var, ws) \<in> set doms. distinct ws)"

definition node_consistent :: "domains \<Rightarrow> bool" where
  "node_consistent doms \<longleftrightarrow> (\<forall>(var, ws) \<in> set doms. \<forall>w \<in> set ws. length w = var_length var)"

text \<open>
  An example grid: \<open>slot_a\<close> runs across the top row, \<open>slot_c\<close> across the bottom row,
  and \<open>slot_b\<close> runs down the last column, so that it starts at the last cell of \<open>slot_a\<close>
  and ends at the last cell of \<open>slot_c\<close>.
\<close>

definition slot_a :: variable where "slot_a = Variable 0 0 ACROSS 3"

definition slot_b :: variable where "slot_b = Variable 0 2 DOWN 3"

definition slot_c :: variable where "slot_c = Variable 2 0 ACROSS 3"

definition ex_overlaps :: "variable \<times> variable \<Rightarrow> (nat \<times> nat) option option" where
  "ex_overlaps =
     map_of [((slot_a, slot_b), Some (2, 0)), ((slot_b, slot_a), Some (0, 2)),
             ((slot_c, slot_b), Some (2, 2)), ((slot_b, slot_c), Some (2, 2)),
             ((slot_a, slot_c), None), ((slot_c, slot_a), None)]"

definition ex_neighbors :: "variable \<Rightarrow> variable list" where
  "ex_neighbors v =
     (if v = slot_a then [slot_b]
      else if v = slot_b then [slot_a, slot_c]
      else if v = slot_c then [slot_b]
      else [])"

definition ex_crossword :: "string list \<Rightarrow> crossword" where
  "ex_crossword ws =
     \<lparr>variables = [slot_a, slot_b, slot_c], words = ws,
      overlaps = ex_overlaps, neighbors = ex_neighbors\<rparr>"

definition ex_words :: "string list" where
  "ex_words = [''cat'', ''dog'', ''toe'', ''axe'', ''bird'']"

text \<open>
  The arc \<open>(x, y)\<close> is consistent when every word of \<open>x\<close>'s domain has a word of \<open>y\<close>'s
  domain that agrees with it at the offsets of the crossing.
\<close>

definition supported :: "nat \<Rightarrow> nat \<Rightarrow> string list \<Rightarrow> string \<Rightarrow> bool" where
  "supported p q y_words x_word =
     list_ex (\<lambda>y_word. p < length x_word \<and> q < length y_word \<and> x_word ! p = y_word ! q) y_words"

definition arc_consistent :: "crossword \<Rightarrow> domains \<Rightarrow> variable \<Rightarrow> variable \<Rightarrow> bool" where
  "arc_consistent cw doms x y =
     (case overlaps cw (x, y) of
        Some (Some (p, q)) \<Rightarrow>
          (case (map_of doms x, map_of doms y) of
             (Some x_words, Some y_words) \<Rightarrow> list_all (supported p q y_words) x_words
           | _ \<Rightarrow> True)
      | _ \<Rightarrow> True)"

text \<open>The example's domains: every slot starts with the whole word list.\<close>

definition ex_domains :: "string list \<Rightarrow> domains" where
  "ex_domains ws = [(slot_a, ws), (slot_b, ws), (slot_c, ws)]"

definition ex_words3 :: "string list" where
  "ex_words3 = [''cat'', ''dog'', ''toe'', ''axe'']"

text \<open>
  The three conditions of a consistent assignment, as the specification words them: the
  assigned words are pairwise distinct; every word has its slot's length; two assigned slots
  that cross agree at the offsets of the crossing.
\<close>

definition words_distinct :: "assignment \<Rightarrow> bool" where
  "words_distinct assignment \<longleftrightarrow> distinct (map snd assignment)"

definition lengths_match :: "assignment \<Rightarrow> bool" where
  "lengths_match assignment \<longleftrightarrow> (\<forall>(var, word) \<in> set assignment. length word = var_length var)"

definition crossings_agree :: "crossword \<Rightarrow> assignment \<Rightarrow> bool" where
  "crossings_agree cw assignment \<longleftrightarrow>
     (\<forall>(u, u_word) \<in> set assignment. \<forall>(v, v_word) \<in> set assignment.
        case overlaps cw (u, v) of
          Some (Some (p, q)) \<Rightarrow> u_word ! p = v_word ! q
        | _ \<Rightarrow> True)"

definition ex_solution :: assignment where
  "ex_solution = [(slot_a, ''cat''), (slot_b, ''toe''), (slot_c, ''axe'')]"

definition ex_words2 :: "string list" where
  "ex_words2 = [''cat'', ''dog'']"

text \<open>Every word of the assignment is in the domain of its slot.\<close>

definition within_domains :: "domains \<Rightarrow> assignment \<Rightarrow> bool" where
  "within_domains doms s \<longleftrightarrow>
     (\<forall>(var, word) \<in> set s. case map_of doms var of None \<Rightarrow> False | Some ws \<Rightarrow> word \<in> set ws)"

text \<open>The arcs that \<^verbatim>\<open>ac3\<close> puts on its queue: pairs of slots with a crossing.\<close>

definition arcs_ok :: "crossword \<Rightarrow> arc list \<Rightarrow> bool" where
  "arcs_ok cw queue \<longleftrightarrow>
     (\<forall>(x, y) \<in> set queue. x \<in> set (variables cw) \<and> y \<in> set (variables cw) \<and>
        (case overlaps cw (x, y) of Some (Some _) \<Rightarrow> True | _ \<Rightarrow> False))"

text \<open>
  A satisfying assignment within the domains: it binds every slot of the puzzle once, to a
  word of the slot's domain, and \<^verbatim>\<open>consistent\<close> accepts it.
\<close>

definition solution :: "crossword \<Rightarrow> domains \<Rightarrow> assignment \<Rightarrow> bool" where
  "solution cw doms s \<longleftrightarrow>
     distinct (map fst s) \<and> set (map fst s) = set (variables cw) \<and>
     within_domains doms s \<and> consistent cw s = Inr True"

section \<open>Properties\<close>

subsection \<open>Node consistency\<close>

lemma domain_remove_member:
  "map_of doms var = Some live \<Longrightarrow> word \<in> set live \<Longrightarrow>
   domain_remove doms var word = Inr (AList.update var (removeAll word live) doms)"
  by (simp add: domain_remove_def set_remove_def)

lemma enc_words_filter:
  "map_of doms var = Some live \<Longrightarrow> distinct ws \<Longrightarrow> set ws \<subseteq> set live \<Longrightarrow>
   enc_words var ws doms =
     Inr (AList.update var
            (filter (\<lambda>w. w \<notin> set ws \<or> length w = var_length var) live) doms)"
proof (induction ws arbitrary: doms live)
  case Nil
  then show ?case by (simp add: update_triv)
next
  case (Cons word rest)
  show ?case
  proof (cases "length word = var_length var")
    case True
    have "filter (\<lambda>w. w \<notin> set (word # rest) \<or> length w = var_length var) live
        = filter (\<lambda>w. w \<notin> set rest \<or> length w = var_length var) live"
      using True by (intro filter_cong) auto
    with True Cons.IH[of doms live] Cons.prems show ?thesis by simp
  next
    case False
    let ?live = "removeAll word live"
    let ?doms = "AList.update var ?live doms"
    from Cons.prems have rem: "domain_remove doms var word = Inr ?doms"
      by (simp add: domain_remove_member)
    have m: "map_of ?doms var = Some ?live" by (simp add: update_conv')
    from Cons.prems have sub: "set rest \<subseteq> set ?live" by auto
    from Cons.prems have d: "distinct rest" by simp
    have "filter (\<lambda>w. w \<notin> set rest \<or> length w = var_length var) ?live
        = filter (\<lambda>w. w \<notin> set (word # rest) \<or> length w = var_length var) live"
      unfolding removeAll_filter_not_eq filter_filter
      using False by (intro filter_cong) auto
    with False rem Cons.IH[OF m d sub] show ?thesis by simp
  qed
qed

lemma enc_words_all:
  assumes "map_of doms var = Some ws" and "distinct ws"
  shows "enc_words var ws doms =
     Inr (AList.update var (filter (\<lambda>w. length w = var_length var) ws) doms)"
proof -
  have "filter (\<lambda>w. w \<notin> set ws \<or> length w = var_length var) ws
      = filter (\<lambda>w. length w = var_length var) ws"
    by (intro filter_cong) auto
  with enc_words_filter[OF assms(1) assms(2) subset_refl] show ?thesis by simp
qed

lemma enc_vars_filter:
  "distinct (map fst snap) \<Longrightarrow>
   (\<forall>(var, ws) \<in> set snap. map_of doms var = Some ws \<and> distinct ws) \<Longrightarrow>
   \<exists>doms'. enc_vars snap doms = Inr doms' \<and> map fst doms' = map fst doms \<and>
     (\<forall>var. map_of doms' var =
        (if var \<in> fst ` set snap
         then map_option (filter (\<lambda>w. length w = var_length var)) (map_of doms var)
         else map_of doms var))"
proof (induction snap arbitrary: doms)
  case Nil
  then show ?case by simp
next
  case (Cons item rest)
  obtain var ws where item: "item = (var, ws)" by (cases item)
  let ?ws = "filter (\<lambda>w. length w = var_length var) ws"
  let ?doms = "AList.update var ?ws doms"
  from Cons.prems item have m: "map_of doms var = Some ws" and dw: "distinct ws" by auto
  from enc_words_all[OF m dw] have step: "enc_words var ws doms = Inr ?doms" .
  from Cons.prems item have notin: "var \<notin> fst ` set rest" and dr: "distinct (map fst rest)"
    by auto
  have pre: "\<forall>(v, vs) \<in> set rest. map_of ?doms v = Some vs \<and> distinct vs"
  proof (clarify)
    fix v vs assume mem: "(v, vs) \<in> set rest"
    with notin have "v \<noteq> var" by force
    moreover from mem Cons.prems have "map_of doms v = Some vs \<and> distinct vs" by auto
    ultimately show "map_of ?doms v = Some vs \<and> distinct vs" by (simp add: update_conv')
  qed
  from Cons.IH[OF dr pre] obtain doms' where
    r: "enc_vars rest ?doms = Inr doms'" and k: "map fst doms' = map fst ?doms" and
    l: "\<forall>v. map_of doms' v =
        (if v \<in> fst ` set rest
         then map_option (filter (\<lambda>w. length w = var_length v)) (map_of ?doms v)
         else map_of ?doms v)" by blast
  from m have "var \<in> set (map fst doms)" by (force dest: map_of_SomeD)
  then have k': "map fst ?doms = map fst doms" by (simp add: update_keys)
  have "\<forall>v. map_of doms' v =
        (if v \<in> fst ` set (item # rest)
         then map_option (filter (\<lambda>w. length w = var_length v)) (map_of doms v)
         else map_of doms v)"
    using l notin m by (auto simp: item update_conv')
  with r k k' step show ?case by (simp add: item)
qed

text \<open>
  Claim C7. After \<^verbatim>\<open>enforce_node_consistency\<close> every slot is still there and its domain
  is what it was without the words whose length differs from the slot's length: every
  remaining word has the slot's length, and only words of another length were removed.
  No exception is raised.
\<close>

theorem enforce_node_consistency_filters:
  assumes "distinct (map fst doms)" and "\<forall>(var, ws) \<in> set doms. distinct ws"
  shows "\<exists>doms'. enforce_node_consistency doms = Inr doms' \<and>
           map fst doms' = map fst doms \<and>
           (\<forall>var ws. map_of doms var = Some ws \<longrightarrow>
              map_of doms' var = Some (filter (\<lambda>w. length w = var_length var) ws))"
proof -
  from assms have "\<forall>(var, ws) \<in> set doms. map_of doms var = Some ws \<and> distinct ws"
    by auto
  from enc_vars_filter[OF assms(1) this] obtain doms' where
    r: "enc_vars doms doms = Inr doms'" and k: "map fst doms' = map fst doms" and
    l: "\<forall>var. map_of doms' var =
        (if var \<in> fst ` set doms
         then map_option (filter (\<lambda>w. length w = var_length var)) (map_of doms var)
         else map_of doms var)" by blast
  have "\<forall>var ws. map_of doms var = Some ws \<longrightarrow>
              map_of doms' var = Some (filter (\<lambda>w. length w = var_length var) ws)"
  proof (intro allI impI)
    fix var ws assume "map_of doms var = Some ws"
    moreover then have "var \<in> fst ` set doms" by (force dest: map_of_SomeD)
    ultimately show "map_of doms' var = Some (filter (\<lambda>w. length w = var_length var) ws)"
      using l by simp
  qed
  with r k show ?thesis by (simp add: enforce_node_consistency_def)
qed

theorem enforce_node_consistency_filters_witness:
  "\<exists>doms'. enforce_node_consistency (init_domains (ex_crossword ex_words)) = Inr doms' \<and>
     map fst doms' = map fst (init_domains (ex_crossword ex_words)) \<and>
     map_of doms' slot_a = Some [''cat'', ''dog'', ''toe'', ''axe'']"
proof -
  let ?d = "init_domains (ex_crossword ex_words)"
  have d: "?d = [(slot_a, ex_words), (slot_b, ex_words), (slot_c, ex_words)]"
    by (simp add: init_domains_def ex_crossword_def slot_a_def slot_b_def slot_c_def)
  have h1: "distinct (map fst ?d)"
    unfolding d by (simp add: slot_a_def slot_b_def slot_c_def)
  have h2: "\<forall>(var, ws) \<in> set ?d. distinct ws"
    unfolding d by (simp add: ex_words_def)
  have m: "map_of ?d slot_a = Some ex_words"
    unfolding d by simp
  from enforce_node_consistency_filters[OF h1 h2] m show ?thesis
    by (fastforce simp: ex_words_def slot_a_def)
qed

subsection \<open>Revise\<close>

lemma ex_init_domains: "init_domains (ex_crossword ws) = ex_domains ws"
  by (simp add: init_domains_def ex_crossword_def ex_domains_def slot_a_def slot_b_def slot_c_def)

lemma revise_None:
  "overlaps cw (x, y) = Some None \<Longrightarrow> revise cw doms x y = (Inl TypeError, doms)"
  by (simp add: revise_def)

text \<open>
  Claim C5. For a pair of slots whose entry in the crossing map is \<^verbatim>\<open>None\<close>, the claim has
  \<^verbatim>\<open>revise\<close> return False and change no domain. The code changes no domain, but it does
  not return: unpacking \<^verbatim>\<open>None\<close> into \<^verbatim>\<open>x_overlap, y_overlap\<close> raises TypeError before the
  guard \<^verbatim>\<open>if x_overlap:\<close> is reached. Evaluated on the two parallel slots of the example.
\<close>

theorem revise_no_crossing_raises:
  "overlaps (ex_crossword ex_words) (slot_a, slot_c) = Some None \<and>
   revise (ex_crossword ex_words) (ex_domains ex_words) slot_a slot_c
     = (Inl TypeError, ex_domains ex_words)"
  by (simp add: revise_def ex_crossword_def ex_overlaps_def slot_a_def slot_b_def slot_c_def)

lemma domain_remove_frame:
  "domain_remove doms x w = Inr doms' \<Longrightarrow>
   map fst doms' = map fst doms \<and> (\<forall>z. z \<noteq> x \<longrightarrow> map_of doms' z = map_of doms z)"
proof -
  assume a: "domain_remove doms x w = Inr doms'"
  then obtain ws ws' where m: "map_of doms x = Some ws" and d: "doms' = AList.update x ws' doms"
    by (auto simp: domain_remove_def split: option.splits sum.splits)
  from m have "x \<in> set (map fst doms)" by (force dest: map_of_SomeD)
  with d show ?thesis by (simp add: update_keys update_conv')
qed

lemma revise_words_frame:
  "revise_words domain x y p q xs doms revised = (r, doms') \<Longrightarrow>
   map fst doms' = map fst doms \<and> (\<forall>z. z \<noteq> x \<longrightarrow> map_of doms' z = map_of doms z)"
proof (induction xs arbitrary: doms revised)
  case Nil
  then show ?case by simp
next
  case (Cons x_word rest)
  show ?case
  proof (cases "map_of domain y")
    case None
    with Cons.prems show ?thesis by simp
  next
    case (Some y_words)
    show ?thesis
    proof (cases "find_match x_word p q y_words")
      case (Inl e)
      with Some Cons.prems show ?thesis by simp
    next
      case (Inr matched)
      show ?thesis
      proof (cases matched)
        case True
        with Some Inr Cons.prems Cons.IH[of doms revised] show ?thesis by simp
      next
        case False
        show ?thesis
        proof (cases "domain_remove doms x x_word")
          case (Inl e)
          with Some Inr False Cons.prems show ?thesis by simp
        next
          case rem: (Inr d1)
          from Some Inr False rem Cons.prems
          have "revise_words domain x y p q rest d1 True = (r, doms')" by simp
          from Cons.IH[OF this] domain_remove_frame[OF rem] show ?thesis by simp
        qed
      qed
    qed
  qed
qed

lemma revise_keys_frame:
  "revise cw doms x y = (r, doms') \<Longrightarrow>
   map fst doms' = map fst doms \<and> (\<forall>z. z \<noteq> x \<longrightarrow> map_of doms' z = map_of doms z)"
  by (auto simp: revise_def Let_def split: option.splits if_splits prod.splits
      dest: revise_words_frame)

text \<open>
  Claim C10. \<^verbatim>\<open>revise(x, y)\<close> changes at most the domain of \<open>x\<close>: whatever it returns or
  raises, the domain of every other slot \<open>z\<close> (also of \<open>y\<close>) is afterwards what it was.
\<close>

theorem revise_frame:
  assumes r: "revise cw doms x y = (r, doms')" and z: "z \<noteq> x"
  shows "map_of doms' z = map_of doms z"
proof (cases "overlaps cw (x, y)")
  case None
  with r show ?thesis by (simp add: revise_def)
next
  case (Some entry)
  show ?thesis
  proof (cases entry)
    case None
    with Some r show ?thesis by (simp add: revise_def)
  next
    case (Some offsets)
    obtain p q where pq: "offsets = (p, q)" by (cases offsets)
    with Some \<open>overlaps cw (x, y) = Some entry\<close>
    have ov: "overlaps cw (x, y) = Some (Some (p, q))" by simp
    show ?thesis
    proof (cases "p \<noteq> 0 \<and> map_of doms x \<noteq> None")
      case False
      with ov r have "doms' = doms" by (auto simp: revise_def split: if_splits)
      then show ?thesis by simp
    next
      case True
      then obtain xs where "map_of doms x = Some xs" by auto
      with True ov r have "revise_words doms x y p q xs doms False = (r, doms')"
        by (simp add: revise_def)
      from revise_words_frame[OF this] z show ?thesis by simp
    qed
  qed
qed

theorem revise_frame_witness:
  "fst (revise (ex_crossword ex_words) (ex_domains ex_words) slot_a slot_b) = Inr True \<and>
   map_of (snd (revise (ex_crossword ex_words) (ex_domains ex_words) slot_a slot_b)) slot_a
     = Some [''cat''] \<and>
   map_of (snd (revise (ex_crossword ex_words) (ex_domains ex_words) slot_a slot_b)) slot_b
     = Some ex_words"
proof -
  let ?r = "revise (ex_crossword ex_words) (ex_domains ex_words) slot_a slot_b"
  have ne: "slot_b \<noteq> slot_a" by (simp add: slot_a_def slot_b_def)
  have e: "?r = (fst ?r, snd ?r)" by simp
  have v: "?r = (Inr True, [(slot_a, [''cat'']), (slot_b, ex_words), (slot_c, ex_words)])"
    by code_simp
  have "map_of (snd ?r) slot_b = map_of (ex_domains ex_words) slot_b"
    using revise_frame[OF e ne] .
  moreover have "map_of (ex_domains ex_words) slot_b = Some ex_words"
    using ne by (simp add: ex_domains_def)
  ultimately show ?thesis using v by simp
qed

subsection \<open>Ordering heuristics\<close>

lemma sort_key_head_minimal:
  assumes "sort_key f xs = y # ys" and "x \<in> set xs"
  shows "f y \<le> f x"
proof -
  have "sorted (map f (sort_key f xs))" by (rule sorted_sort_key)
  with assms(1) have "\<forall>z \<in> set ys. f y \<le> f z" by simp
  moreover have "x \<in> set (sort_key f xs)" using assms(2) by simp
  ultimately show ?thesis using assms(1) by auto
qed

lemma select_unassigned_variable_min:
  assumes "\<exists>var \<in> fst ` set doms. var \<notin> fst ` set assignment"
  shows "\<exists>var ws. select_unassigned_variable doms assignment = Inr var \<and>
           (var, ws) \<in> set doms \<and> var \<notin> fst ` set assignment \<and>
           (\<forall>(u, us) \<in> set doms. u \<notin> fst ` set assignment \<longrightarrow> length ws \<le> length us)"
proof -
  let ?u = "filter (\<lambda>(var, ws). map_of assignment var = None) doms"
  let ?f = "\<lambda>item :: variable \<times> string list. length (snd item)"
  have mem: "\<And>u us. (u, us) \<in> set ?u \<longleftrightarrow> (u, us) \<in> set doms \<and> u \<notin> fst ` set assignment"
    by (auto simp: map_of_eq_None_iff)
  from assms obtain u0 us0 where "(u0, us0) \<in> set doms" "u0 \<notin> fst ` set assignment"
    by auto
  then have "(u0, us0) \<in> set ?u" using mem by blast
  then have "?u \<noteq> []" by (metis empty_iff list.set(1))
  then have "sort_key ?f ?u \<noteq> []" by (metis length_sort length_0_conv)
  then obtain var ws rest where s: "sort_key ?f ?u = (var, ws) # rest"
    by (cases "sort_key ?f ?u") auto
  then have sel: "select_unassigned_variable doms assignment = Inr var"
    by (simp add: select_unassigned_variable_def)
  from s have "(var, ws) \<in> set (sort_key ?f ?u)" by simp
  then have "(var, ws) \<in> set ?u" by (simp only: set_sort)
  with mem have in_doms: "(var, ws) \<in> set doms" and un: "var \<notin> fst ` set assignment"
    by blast+
  have "\<forall>(u, us) \<in> set doms. u \<notin> fst ` set assignment \<longrightarrow> length ws \<le> length us"
  proof (clarify)
    fix u us assume "(u, us) \<in> set doms" "u \<notin> fst ` set assignment"
    with mem have "(u, us) \<in> set ?u" by blast
    from sort_key_head_minimal[OF s this] show "length ws \<le> length us" by simp
  qed
  with sel in_doms un show ?thesis by blast
qed

text \<open>
  Claim C9. When the assignment does not cover every slot of the domains,
  \<^verbatim>\<open>select_unassigned_variable\<close> returns one slot; it is a slot of the domains, it is not in
  the assignment, and no unassigned slot has a smaller domain.
\<close>

theorem select_unassigned_variable_minimal:
  assumes "distinct (map fst doms)"
    and "\<exists>var \<in> fst ` set doms. var \<notin> fst ` set assignment"
  shows "\<exists>var ws. select_unassigned_variable doms assignment = Inr var \<and>
           map_of doms var = Some ws \<and> var \<notin> fst ` set assignment \<and>
           (\<forall>(u, us) \<in> set doms. u \<notin> fst ` set assignment \<longrightarrow> length ws \<le> length us)"
proof -
  from select_unassigned_variable_min[OF assms(2)] obtain var ws where
    sel: "select_unassigned_variable doms assignment = Inr var"
    and item: "(var, ws) \<in> set doms" and un: "var \<notin> fst ` set assignment"
    and least: "\<forall>(u, us) \<in> set doms. u \<notin> fst ` set assignment \<longrightarrow> length ws \<le> length us"
    by blast
  from item assms(1) have "map_of doms var = Some ws" by simp
  with sel un least show ?thesis by blast
qed

theorem select_unassigned_variable_minimal_witness:
  "\<exists>var ws. select_unassigned_variable
       [(slot_a, [''cat'', ''dog'']), (slot_b, [''toe'']), (slot_c, [''axe''])] [(slot_c, ''axe'')]
         = Inr var \<and> var = slot_b \<and> ws = [''toe'']"
proof -
  let ?d = "[(slot_a, [''cat'', ''dog'']), (slot_b, [''toe'']), (slot_c, [''axe''])]"
  let ?a = "[(slot_c, ''axe'')]"
  have h1: "distinct (map fst ?d)" by (simp add: slot_a_def slot_b_def slot_c_def)
  have h2: "\<exists>var \<in> fst ` set ?d. var \<notin> fst ` set ?a"
    by (simp add: slot_a_def slot_b_def slot_c_def)
  from select_unassigned_variable_minimal[OF h1 h2] obtain var ws where
    r: "select_unassigned_variable ?d ?a = Inr var" and m: "map_of ?d var = Some ws"
    and un: "var \<notin> fst ` set ?a"
    and mn: "\<forall>(u, us) \<in> set ?d. u \<notin> fst ` set ?a \<longrightarrow> length ws \<le> length us"
    by blast
  from mn have "length ws \<le> 1" by (simp add: slot_a_def slot_b_def slot_c_def)
  with m un have "var = slot_b \<and> ws = [''toe'']"
    by (auto simp: slot_a_def slot_b_def slot_c_def split: if_splits)
  with r show ?thesis by blast
qed

text \<open>
  Claim C4. The claim has \<^verbatim>\<open>order_domain_values\<close> sort the words by the number of neighbour
  words they rule out. The code computes that number for every word and stores it in the
  dict \<^verbatim>\<open>ordered_values\<close>, but \<^verbatim>\<open>sorted(ordered_values)\<close> sorts the keys of the dict: the
  words come back in alphabetical order, whatever the counts. In the example \<open>''axe''\<close>
  rules out 4 words and \<open>''cat''\<close> only 3, and \<open>''axe''\<close> comes first.
\<close>

theorem order_domain_values_ignores_counts:
  "value_counts (ex_crossword ex_words3) (ex_domains ex_words3) [] slot_a ex_words3 []
     = Inr [(''cat'', 3), (''dog'', 4), (''toe'', 4), (''axe'', 4)] \<and>
   order_domain_values (ex_crossword ex_words3) (ex_domains ex_words3) slot_a []
     = Inr [''axe'', ''cat'', ''dog'', ''toe'']"
  by code_simp

subsection \<open>AC-3\<close>

text \<open>
  Claim C6. The claim has every arc consistent after a successful AC-3 run. The guard
  \<^verbatim>\<open>if x_overlap:\<close> of \<^verbatim>\<open>revise\<close> takes the offset 0 for "no overlap", so an arc whose
  first slot is crossed at its first cell is never revised. In the example \<open>slot_b\<close> starts
  at the last cell of \<open>slot_a\<close>: AC-3 returns True and leaves \<open>''cat''\<close> in the domain of
  \<open>slot_b\<close>, although no word left for \<open>slot_a\<close> ends with \<open>c\<close>.
\<close>

theorem ac3_leaves_inconsistent_arc:
  "ac3 (ex_crossword ex_words3) (ex_domains ex_words3) None
     = (Inr True, [(slot_a, [''cat'']), (slot_b, ex_words3), (slot_c, ex_words3)]) \<and>
   overlaps (ex_crossword ex_words3) (slot_b, slot_a) = Some (Some (0, 2)) \<and>
   \<not> supported 0 2 [''cat''] ''cat'' \<and>
   \<not> arc_consistent (ex_crossword ex_words3)
        [(slot_a, [''cat'']), (slot_b, ex_words3), (slot_c, ex_words3)] slot_b slot_a"
  by code_simp

subsection \<open>Consistent assignments\<close>

lemma wf_crossword_neighbor:
  assumes "wf_crossword cw" and "u \<in> set (variables cw)" and "n \<in> set (neighbors cw u)"
  shows "n \<in> set (variables cw) \<and> (\<exists>p q. overlaps cw (u, n) = Some (Some (p, q)))"
proof -
  from assms have n: "n \<in> set (variables cw)" by (auto simp: wf_crossword_def)
  from assms(1,2) n have
    "case overlaps cw (u, n) of
       None \<Rightarrow> u = n \<and> n \<notin> set (neighbors cw u)
     | Some None \<Rightarrow> u \<noteq> n \<and> n \<notin> set (neighbors cw u) \<and> overlaps cw (n, u) = Some None
     | Some (Some (p, q)) \<Rightarrow>
         u \<noteq> n \<and> n \<in> set (neighbors cw u) \<and> p < var_length u \<and> q < var_length n \<and>
         overlaps cw (n, u) = Some (Some (q, p))"
    unfolding wf_crossword_def by blast
  with assms(3) n show ?thesis by (auto split: option.splits)
qed

lemma wf_crossword_overlap:
  assumes "wf_crossword cw" and "u \<in> set (variables cw)" and "v \<in> set (variables cw)"
    and "overlaps cw (u, v) = Some (Some (p, q))"
  shows "v \<in> set (neighbors cw u) \<and> p < var_length u \<and> q < var_length v \<and> u \<noteq> v \<and>
         overlaps cw (v, u) = Some (Some (q, p))"
proof -
  from assms(1,2,3) have
    "case overlaps cw (u, v) of
       None \<Rightarrow> u = v \<and> v \<notin> set (neighbors cw u)
     | Some None \<Rightarrow> u \<noteq> v \<and> v \<notin> set (neighbors cw u) \<and> overlaps cw (v, u) = Some None
     | Some (Some (p, q)) \<Rightarrow>
         u \<noteq> v \<and> v \<in> set (neighbors cw u) \<and> p < var_length u \<and> q < var_length v \<and>
         overlaps cw (v, u) = Some (Some (q, p))"
    unfolding wf_crossword_def by blast
  with assms(4) show ?thesis by simp
qed

lemma ex_wf_crossword: "wf_crossword (ex_crossword ex_words3)"
  by code_simp

lemma distinct_count_list:
  "distinct xs \<longleftrightarrow> (\<forall>x \<in> set xs. count_list xs x \<le> 1)"
  by (induction xs) (auto simp: count_list_0_iff)

lemma duplicate_check:
  "list_ex (\<lambda>val. count_list vals val > 1) vals \<longleftrightarrow> \<not> distinct vals"
  by (auto simp: distinct_count_list list_ex_iff not_le)

lemma length_check:
  "list_ex (\<lambda>(var, word). var_length var \<noteq> length word) assignment
     \<longleftrightarrow> \<not> lengths_match assignment"
proof -
  have "list_ex (\<lambda>(var, word). var_length var \<noteq> length word) assignment
      \<longleftrightarrow> (\<exists>(var, word) \<in> set assignment. var_length var \<noteq> length word)"
    by (simp only: list_ex_iff)
  also have "\<dots> \<longleftrightarrow> \<not> (\<forall>(var, word) \<in> set assignment. length word = var_length var)"
    by (simp add: split_beta) metis
  finally show ?thesis by (simp only: lengths_match_def)
qed

text \<open>
  The loop over the neighbours of an assigned slot: with matching lengths it raises nothing,
  and it finds a conflict exactly when some assigned neighbour disagrees at the crossing.
\<close>

lemma conflict_neighbors_iff:
  assumes wf: "wf_crossword cw" and lm: "lengths_match assignment"
    and d: "distinct (map fst assignment)"
    and var: "var \<in> set (variables cw)" and vw: "map_of assignment var = Some var_word"
  shows "set ns \<subseteq> set (neighbors cw var) \<Longrightarrow>
    conflict_neighbors cw assignment var ns =
      Inr (\<exists>n \<in> set ns. \<exists>n_word p q. map_of assignment n = Some n_word \<and>
             overlaps cw (var, n) = Some (Some (p, q)) \<and> var_word ! p \<noteq> n_word ! q)"
proof (induction ns)
  case Nil
  then show ?case by simp
next
  case (Cons n rest)
  then have n: "n \<in> set (neighbors cw var)" and sub: "set rest \<subseteq> set (neighbors cw var)"
    by auto
  note IH = Cons.IH[OF sub]
  show ?case
  proof (cases "map_of assignment n")
    case None
    with IH show ?thesis by simp
  next
    case (Some n_word)
    from wf_crossword_neighbor[OF wf var n] obtain p q where
      nv: "n \<in> set (variables cw)" and ov: "overlaps cw (var, n) = Some (Some (p, q))"
      by blast
    from wf_crossword_overlap[OF wf var nv ov] have
      p: "p < var_length var" and q: "q < var_length n" by simp_all
    from vw have "(var, var_word) \<in> set assignment" by (rule map_of_SomeD)
    with lm have lv: "length var_word = var_length var" by (auto simp: lengths_match_def)
    from Some have "(n, n_word) \<in> set assignment" by (rule map_of_SomeD)
    with lm have ln: "length n_word = var_length n" by (auto simp: lengths_match_def)
    from p q lv ln have c: "char_at var_word p = Inr (var_word ! p)"
      "char_at n_word q = Inr (n_word ! q)" by (simp_all add: char_at_def)
    show ?thesis
    proof (cases "var_word ! p = n_word ! q")
      case True
      with Some ov vw c IH show ?thesis by auto
    next
      case False
      with Some ov vw c show ?thesis by auto
    qed
  qed
qed

lemma conflict_vars_iff:
  assumes wf: "wf_crossword cw" and lm: "lengths_match assignment"
    and d: "distinct (map fst assignment)"
    and keys: "set (map fst assignment) \<subseteq> set (variables cw)"
  shows "set vs \<subseteq> set (map fst assignment) \<Longrightarrow>
    conflict_vars cw assignment vs =
      Inr (\<exists>var \<in> set vs. \<exists>n \<in> set (neighbors cw var). \<exists>var_word n_word p q.
             map_of assignment var = Some var_word \<and> map_of assignment n = Some n_word \<and>
             overlaps cw (var, n) = Some (Some (p, q)) \<and> var_word ! p \<noteq> n_word ! q)"
proof (induction vs)
  case Nil
  then show ?case by simp
next
  case (Cons var rest)
  then have k: "var \<in> set (map fst assignment)" and sub: "set rest \<subseteq> set (map fst assignment)"
    by auto
  from k keys have v: "var \<in> set (variables cw)" by auto
  from k obtain var_word where vw: "map_of assignment var = Some var_word"
    by (metis map_of_eq_None_iff not_Some_eq set_map)
  note N = conflict_neighbors_iff[OF wf lm d v vw subset_refl]
  note IH = Cons.IH[OF sub]
  show ?case
  proof (cases "\<exists>n \<in> set (neighbors cw var). \<exists>n_word p q. map_of assignment n = Some n_word \<and>
             overlaps cw (var, n) = Some (Some (p, q)) \<and> var_word ! p \<noteq> n_word ! q")
    case True
    with N have "conflict_neighbors cw assignment var (neighbors cw var) = Inr True" by simp
    moreover from True vw have "\<exists>var' \<in> set (var # rest). \<exists>n \<in> set (neighbors cw var').
        \<exists>var_word n_word p q.
             map_of assignment var' = Some var_word \<and> map_of assignment n = Some n_word \<and>
             overlaps cw (var', n) = Some (Some (p, q)) \<and> var_word ! p \<noteq> n_word ! q"
      by auto
    ultimately show ?thesis by simp
  next
    case False
    with N have "conflict_neighbors cw assignment var (neighbors cw var) = Inr False" by simp
    moreover from False vw have "(\<exists>var' \<in> set (var # rest). \<exists>n \<in> set (neighbors cw var').
        \<exists>var_word n_word p q.
             map_of assignment var' = Some var_word \<and> map_of assignment n = Some n_word \<and>
             overlaps cw (var', n) = Some (Some (p, q)) \<and> var_word ! p \<noteq> n_word ! q)
      \<longleftrightarrow> (\<exists>var' \<in> set rest. \<exists>n \<in> set (neighbors cw var').
        \<exists>var_word n_word p q.
             map_of assignment var' = Some var_word \<and> map_of assignment n = Some n_word \<and>
             overlaps cw (var', n) = Some (Some (p, q)) \<and> var_word ! p \<noteq> n_word ! q)"
      by auto
    ultimately show ?thesis using IH by simp
  qed
qed

lemma crossings_agree_iff:
  assumes wf: "wf_crossword cw" and d: "distinct (map fst assignment)"
    and keys: "set (map fst assignment) \<subseteq> set (variables cw)"
  shows "crossings_agree cw assignment \<longleftrightarrow>
    \<not> (\<exists>var \<in> set (map fst assignment). \<exists>n \<in> set (neighbors cw var). \<exists>var_word n_word p q.
             map_of assignment var = Some var_word \<and> map_of assignment n = Some n_word \<and>
             overlaps cw (var, n) = Some (Some (p, q)) \<and> var_word ! p \<noteq> n_word ! q)"
    (is "?L \<longleftrightarrow> \<not> ?R")
proof
  assume L: ?L
  show "\<not> ?R"
  proof
    assume ?R
    then obtain var n var_word n_word p q where
      a: "map_of assignment var = Some var_word" "map_of assignment n = Some n_word"
         "overlaps cw (var, n) = Some (Some (p, q))" "var_word ! p \<noteq> n_word ! q" by blast
    from a(1,2) have "(var, var_word) \<in> set assignment" "(n, n_word) \<in> set assignment"
      by (auto dest: map_of_SomeD)
    with L a(3) have "var_word ! p = n_word ! q"
      unfolding crossings_agree_def by fastforce
    with a(4) show False by simp
  qed
next
  assume nR: "\<not> ?R"
  show ?L
    unfolding crossings_agree_def
  proof (clarify)
    fix u u_word v v_word
    assume m: "(u, u_word) \<in> set assignment" "(v, v_word) \<in> set assignment"
    show "case overlaps cw (u, v) of Some (Some (p, q)) \<Rightarrow> u_word ! p = v_word ! q | _ \<Rightarrow> True"
    proof (cases "overlaps cw (u, v)")
      case None
      then show ?thesis by simp
    next
      case (Some o1)
      show ?thesis
      proof (cases o1)
        case None
        with Some show ?thesis by simp
      next
        case (Some pq)
        obtain p q where pq: "pq = (p, q)" by (cases pq)
        with Some \<open>overlaps cw (u, v) = Some o1\<close>
        have ov: "overlaps cw (u, v) = Some (Some (p, q))" by simp
        from m keys have uv: "u \<in> set (variables cw)" "v \<in> set (variables cw)" by force+
        from wf_crossword_overlap[OF wf uv ov] have nb: "v \<in> set (neighbors cw u)" by simp
        from m d have mo: "map_of assignment u = Some u_word" "map_of assignment v = Some v_word"
          by simp_all
        from m have "u \<in> set (map fst assignment)" by force
        with nR nb mo ov have "u_word ! p = v_word ! q" by blast
        with ov show ?thesis by simp
      qed
    qed
  qed
qed

lemma consistent_iff:
  assumes wf: "wf_crossword cw" and d: "distinct (map fst assignment)"
    and keys: "set (map fst assignment) \<subseteq> set (variables cw)"
  shows "consistent cw assignment =
    Inr (words_distinct assignment \<and> lengths_match assignment \<and> crossings_agree cw assignment)"
proof -
  have dc: "list_ex (\<lambda>val. count_list (map snd assignment) val > 1) (map snd assignment)
      \<longleftrightarrow> \<not> words_distinct assignment"
    by (simp only: duplicate_check words_distinct_def)
  have unfolded: "consistent cw assignment =
     (if \<not> words_distinct assignment then Inr False
      else if \<not> lengths_match assignment then Inr False
      else (case conflict_vars cw assignment (map fst assignment) of
              Inl e \<Rightarrow> Inl e
            | Inr conflict \<Rightarrow> Inr (\<not> conflict)))"
    by (simp only: consistent_def Let_def dc length_check)
  show ?thesis
  proof (cases "words_distinct assignment \<and> lengths_match assignment")
    case False
    then show ?thesis unfolding unfolded by auto
  next
    case True
    then have lm: "lengths_match assignment" by simp
    from conflict_vars_iff[OF wf lm d keys subset_refl] crossings_agree_iff[OF wf d keys]
    have "conflict_vars cw assignment (map fst assignment)
        = Inr (\<not> crossings_agree cw assignment)"
      by simp
    with True show ?thesis unfolding unfolded by simp
  qed
qed

text \<open>
  Claim C8. For an assignment to slots of a well-formed crossword, \<^verbatim>\<open>consistent\<close> raises
  nothing and returns True exactly when the three conditions hold: the assigned words are
  pairwise distinct, every word has its slot's length, and every two assigned slots that
  cross agree at the offsets of the crossing. Any violation gives False.
\<close>

theorem consistent_characterisation:
  assumes "wf_crossword cw" and "distinct (map fst assignment)"
    and "set (map fst assignment) \<subseteq> set (variables cw)"
  shows "(consistent cw assignment = Inr True \<longleftrightarrow>
            words_distinct assignment \<and> lengths_match assignment \<and>
            crossings_agree cw assignment) \<and>
         (consistent cw assignment = Inr False \<longleftrightarrow>
            \<not> (words_distinct assignment \<and> lengths_match assignment \<and>
               crossings_agree cw assignment))"
proof -
  have "consistent cw assignment =
    Inr (words_distinct assignment \<and> lengths_match assignment \<and> crossings_agree cw assignment)"
    using assms by (rule consistent_iff)
  then show ?thesis by auto
qed

theorem consistent_characterisation_witness:
  "consistent (ex_crossword ex_words3) ex_solution = Inr True \<and>
   words_distinct ex_solution \<and> lengths_match ex_solution \<and>
   crossings_agree (ex_crossword ex_words3) ex_solution"
proof -
  have wf: "wf_crossword (ex_crossword ex_words3)" by (rule ex_wf_crossword)
  have d: "distinct (map fst ex_solution)" by code_simp
  have k: "set (map fst ex_solution) \<subseteq> set (variables (ex_crossword ex_words3))"
    by code_simp
  have v: "consistent (ex_crossword ex_words3) ex_solution = Inr True" by code_simp
  from consistent_characterisation[OF wf d k] v show ?thesis by simp
qed

subsection \<open>The domains a creator starts with\<close>

lemma update_new_key: "k \<notin> fst ` set al \<Longrightarrow> AList.update k v al = al @ [(k, v)]"
  by (induction al) auto

lemma fold_update_new_keys:
  "distinct vs \<Longrightarrow> set vs \<inter> fst ` set acc = {} \<Longrightarrow>
   fold (\<lambda>var doms. AList.update var w doms) vs acc = acc @ map (\<lambda>var. (var, w)) vs"
proof (induction vs arbitrary: acc)
  case Nil
  then show ?case by simp
next
  case (Cons v rest)
  then have new: "v \<notin> fst ` set acc" and dr: "distinct rest"
    and dj: "set rest \<inter> fst ` set (acc @ [(v, w)]) = {}" by auto
  from Cons.IH[OF dr dj] new show ?case by (simp add: update_new_key)
qed

text \<open>
  \<^verbatim>\<open>__init__\<close> gives every slot of a well-formed crossword the whole word list: the domains
  that \<^verbatim>\<open>solve\<close> starts from are well formed.
\<close>

lemma init_domains_eq:
  "distinct (variables cw) \<Longrightarrow> init_domains cw = map (\<lambda>var. (var, words cw)) (variables cw)"
  by (simp add: init_domains_def fold_update_new_keys)

lemma init_domains_wf: "wf_crossword cw \<Longrightarrow> wf_domains cw (init_domains cw)"
proof -
  assume wf: "wf_crossword cw"
  then have d: "distinct (variables cw)" and dw: "distinct (words cw)"
    by (simp_all add: wf_crossword_def)
  have "map fst (init_domains cw) = variables cw"
    by (simp add: init_domains_eq[OF d] comp_def)
  moreover have "\<forall>(var, ws) \<in> set (init_domains cw). distinct ws"
    using dw by (auto simp: init_domains_eq[OF d])
  ultimately show ?thesis using d by (simp add: wf_domains_def)
qed

subsection \<open>What the pipeline keeps\<close>

lemma enforce_node_consistency_result:
  assumes "distinct (map fst doms)" and "\<forall>(var, ws) \<in> set doms. distinct ws"
  shows "\<exists>doms'. enforce_node_consistency doms = Inr doms' \<and> map fst doms' = map fst doms \<and>
     (\<forall>var. map_of doms' var =
        map_option (filter (\<lambda>w. length w = var_length var)) (map_of doms var))"
proof -
  from assms have "\<forall>(var, ws) \<in> set doms. map_of doms var = Some ws \<and> distinct ws"
    by auto
  from enc_vars_filter[OF assms(1) this] obtain doms' where
    r: "enc_vars doms doms = Inr doms'" and k: "map fst doms' = map fst doms" and
    l: "\<forall>var. map_of doms' var =
        (if var \<in> fst ` set doms
         then map_option (filter (\<lambda>w. length w = var_length var)) (map_of doms var)
         else map_of doms var)" by blast
  have "\<forall>var. map_of doms' var =
        map_option (filter (\<lambda>w. length w = var_length var)) (map_of doms var)"
  proof
    fix var
    show "map_of doms' var =
        map_option (filter (\<lambda>w. length w = var_length var)) (map_of doms var)"
    proof (cases "var \<in> fst ` set doms")
      case True
      with l show ?thesis by simp
    next
      case False
      then have "map_of doms var = None" by (simp add: map_of_eq_None_iff)
      with l False show ?thesis by simp
    qed
  qed
  with r k show ?thesis by (simp add: enforce_node_consistency_def)
qed

lemma ac3_loop_keys:
  "ac3_loop cw doms queue = (r, doms') \<Longrightarrow> map fst doms' = map fst doms"
proof (induction cw doms queue rule: ac3_loop.induct)
  case (1 cw doms queue)
  show ?case
  proof (cases "length queue = 0")
    case True
    with "1.prems" show ?thesis by (simp add: ac3_loop.simps[of cw doms queue])
  next
    case ne: False
    obtain x y where xy: "last queue = (x, y)" by (cases "last queue")
    obtain r1 d1 where rv: "revise cw doms x y = (r1, d1)" by (cases "revise cw doms x y")
    from revise_keys_frame[OF rv] have k1: "map fst d1 = map fst doms" by simp
    show ?thesis
    proof (cases r1)
      case (Inl e)
      with ne xy rv "1.prems" k1 show ?thesis
        by (simp add: ac3_loop.simps[of cw doms queue])
    next
      case (Inr b)
      show ?thesis
      proof (cases b)
        case False
        with ne xy rv Inr "1.prems"
        have "ac3_loop cw d1 (butlast queue) = (r, doms')"
          by (simp add: ac3_loop.simps[of cw doms queue])
        from "1.IH"(2)[OF ne refl xy[symmetric] refl rv[symmetric] Inr False this] k1
        show ?thesis by simp
      next
        case True
        show ?thesis
        proof (cases "map_of d1 x")
          case None
          with ne xy rv Inr True "1.prems" k1 show ?thesis
            by (simp add: ac3_loop.simps[of cw doms queue])
        next
          case (Some x_words)
          show ?thesis
          proof (cases "length x_words = 0")
            case True
            with ne xy rv Inr \<open>b\<close> Some "1.prems" k1 show ?thesis
              by (simp add: ac3_loop.simps[of cw doms queue])
          next
            case False
            with ne xy rv Inr \<open>b\<close> Some "1.prems"
            have "ac3_loop cw d1 (butlast queue @ map (\<lambda>neighbor. (neighbor, x))
                      (filter (\<lambda>neighbor. neighbor \<noteq> y) (neighbors cw x))) = (r, doms')"
              by (simp add: ac3_loop.simps[of cw doms queue])
            from "1.IH"(1)[OF ne refl xy[symmetric] refl rv[symmetric] Inr \<open>b\<close> Some False this]
              k1
            show ?thesis by simp
          qed
        qed
      qed
    qed
  qed
qed

lemma ac3_keys: "ac3 cw doms arcs = (r, doms') \<Longrightarrow> map fst doms' = map fst doms"
  by (auto simp: ac3_def split: option.splits sum.splits dest: ac3_loop_keys)

text \<open>AC-3 returns False only right after a revision has emptied a domain.\<close>

lemma ac3_loop_False:
  "ac3_loop cw doms queue = (Inr False, doms') \<Longrightarrow> \<exists>x. map_of doms' x = Some []"
proof (induction cw doms queue rule: ac3_loop.induct)
  case (1 cw doms queue)
  show ?case
  proof (cases "length queue = 0")
    case True
    with "1.prems" show ?thesis by (simp add: ac3_loop.simps[of cw doms queue])
  next
    case ne: False
    obtain x y where xy: "last queue = (x, y)" by (cases "last queue")
    obtain r1 d1 where rv: "revise cw doms x y = (r1, d1)" by (cases "revise cw doms x y")
    show ?thesis
    proof (cases r1)
      case (Inl e)
      with ne xy rv "1.prems" show ?thesis
        by (simp add: ac3_loop.simps[of cw doms queue])
    next
      case (Inr b)
      show ?thesis
      proof (cases b)
        case False
        with ne xy rv Inr "1.prems"
        have "ac3_loop cw d1 (butlast queue) = (Inr False, doms')"
          by (simp add: ac3_loop.simps[of cw doms queue])
        from "1.IH"(2)[OF ne refl xy[symmetric] refl rv[symmetric] Inr False this]
        show ?thesis .
      next
        case True
        show ?thesis
        proof (cases "map_of d1 x")
          case None
          with ne xy rv Inr True "1.prems" show ?thesis
            by (simp add: ac3_loop.simps[of cw doms queue])
        next
          case (Some x_words)
          show ?thesis
          proof (cases "length x_words = 0")
            case True
            with ne xy rv Inr \<open>b\<close> Some "1.prems" have "doms' = d1"
              by (simp add: ac3_loop.simps[of cw doms queue])
            with Some True show ?thesis by auto
          next
            case False
            with ne xy rv Inr \<open>b\<close> Some "1.prems"
            have "ac3_loop cw d1 (butlast queue @ map (\<lambda>neighbor. (neighbor, x))
                      (filter (\<lambda>neighbor. neighbor \<noteq> y) (neighbors cw x))) = (Inr False, doms')"
              by (simp add: ac3_loop.simps[of cw doms queue])
            from "1.IH"(1)[OF ne refl xy[symmetric] refl rv[symmetric] Inr \<open>b\<close> Some False this]
            show ?thesis .
          qed
        qed
      qed
    qed
  qed
qed

lemma ac3_False: "ac3 cw doms None = (Inr False, doms') \<Longrightarrow> \<exists>x. map_of doms' x = Some []"
  by (auto simp: ac3_def split: sum.splits dest: ac3_loop_False)

subsection \<open>Backtracking: what is returned\<close>

lemma try_each_Some:
  "try_each branch vs calls = Inr (Some r, n) \<Longrightarrow> \<exists>v \<in> set vs. \<exists>k. branch v = Inr (Some r, k)"
proof (induction vs arbitrary: calls)
  case Nil
  then show ?case by simp
next
  case (Cons v rest)
  show ?case
  proof (cases "branch v")
    case (Inl e)
    with Cons.prems show ?thesis by simp
  next
    case (Inr res)
    obtain found k where res: "res = (found, k)" by (cases res)
    show ?thesis
    proof (cases found)
      case None
      with Inr res Cons.prems have "try_each branch rest (calls + k) = Inr (Some r, n)" by simp
      from Cons.IH[OF this] show ?thesis by auto
    next
      case (Some r')
      with Inr res Cons.prems have "r' = r" by simp
      with Inr res Some show ?thesis by auto
    qed
  qed
qed

lemma consistent_empty: "consistent cw [] = Inr True"
  by (simp add: consistent_def)

lemma keys_complete:
  assumes "distinct (map fst doms)" and "distinct (map fst assignment)"
    and "set (map fst assignment) \<subseteq> set (map fst doms)"
    and "length assignment = length doms"
  shows "set (map fst assignment) = set (map fst doms)"
proof -
  have "card (set (map fst assignment)) = length (map fst assignment)"
    using assms(2) by (rule distinct_card)
  moreover have "card (set (map fst doms)) = length (map fst doms)"
    using assms(1) by (rule distinct_card)
  ultimately have "card (set (map fst assignment)) = card (set (map fst doms))"
    using assms(4) by simp
  with assms(3) show ?thesis by (intro card_subset_eq) simp_all
qed

text \<open>
  An assignment that \<^verbatim>\<open>backtrack\<close> returns covers the slots of the domains and was accepted
  by \<^verbatim>\<open>consistent\<close>, when the assignment it started from was accepted.
\<close>

lemma backtrack_calls_sound:
  "distinct (map fst doms) \<Longrightarrow> distinct (map fst assignment) \<Longrightarrow>
   set (map fst assignment) \<subseteq> set (map fst doms) \<Longrightarrow>
   consistent cw assignment = Inr True \<Longrightarrow>
   backtrack_calls cw doms assignment = Inr (Some r, n) \<Longrightarrow>
   distinct (map fst r) \<and> set (map fst r) = set (map fst doms) \<and> consistent cw r = Inr True"
proof (induction cw doms assignment arbitrary: n rule: backtrack_calls.induct)
  case (1 cw doms assignment)
  show ?case
  proof (cases "length assignment = length doms")
    case True
    with "1.prems"(5) have "r = assignment"
      by (simp add: backtrack_calls.simps[of cw doms assignment])
    with "1.prems" True keys_complete[of doms assignment] show ?thesis by simp
  next
    case ne: False
    show ?thesis
    proof (cases "select_unassigned_variable doms assignment")
      case (Inl e)
      with ne "1.prems"(5) show ?thesis
        by (simp add: backtrack_calls.simps[of cw doms assignment])
    next
      case sel: (Inr var)
      show ?thesis
      proof (cases "order_domain_values cw doms var assignment")
        case (Inl e)
        with ne sel "1.prems"(5) show ?thesis
          by (simp add: backtrack_calls.simps[of cw doms assignment])
      next
        case ord: (Inr vals)
        let ?branch = "\<lambda>v. let assignment_copy = AList.update var v assignment in
                         case consistent cw assignment_copy of
                           Inl e \<Rightarrow> Inl e
                         | Inr ok \<Rightarrow>
                             if ok then backtrack_calls cw doms assignment_copy
                             else Inr (None, 0)"
        from ne sel ord "1.prems"(5) have "try_each ?branch vals 1 = Inr (Some r, n)"
          by (simp add: backtrack_calls.simps[of cw doms assignment])
        from try_each_Some[OF this] obtain v k where
          br: "?branch v = Inr (Some r, k)" by blast
        let ?copy = "AList.update var v assignment"
        from br have ok: "consistent cw ?copy = Inr True"
          and rec: "backtrack_calls cw doms ?copy = Inr (Some r, k)"
          by (auto simp: Let_def split: sum.splits if_splits)
        from select_unassigned_variable_unassigned[OF sel]
        have var: "var \<in> fst ` set doms" by simp
        from "1.prems"(2) have d: "distinct (map fst ?copy)" by (rule distinct_update)
        from "1.prems"(3) var have sub: "set (map fst ?copy) \<subseteq> set (map fst doms)"
          by (auto simp: dom_update)
        from "1.IH"[OF ne sel ord refl ok TrueI "1.prems"(1) d sub ok rec]
        show ?thesis .
      qed
    qed
  qed
qed

text \<open>
  Claim C3. An assignment that \<^verbatim>\<open>solve\<close> returns binds every slot of the puzzle (each
  once), is accepted by \<^verbatim>\<open>consistent\<close>, and so has pairwise distinct words of the slots'
  lengths that agree at every crossing.
\<close>

theorem solve_sound:
  assumes wf: "wf_crossword cw" and wd: "wf_domains cw doms"
    and solved: "solve cw doms = Inr (Some a)"
  shows "distinct (map fst a) \<and> set (map fst a) = set (variables cw) \<and>
         assignment_complete doms a \<and> consistent cw a = Inr True \<and>
         words_distinct a \<and> lengths_match a \<and> crossings_agree cw a"
proof -
  from wd have dk: "distinct (map fst doms)" and ks: "set (map fst doms) = set (variables cw)"
    and dw: "\<forall>(var, ws) \<in> set doms. distinct ws"
    by (simp_all add: wf_domains_def)
  from enforce_node_consistency_result[OF dk dw] obtain doms1 where
    e: "enforce_node_consistency doms = Inr doms1" and k1: "map fst doms1 = map fst doms"
    by blast
  obtain r2 doms2 where a3: "ac3 cw doms1 None = (r2, doms2)" by (cases "ac3 cw doms1 None")
  from ac3_keys[OF a3] k1 have k2: "map fst doms2 = map fst doms" by simp
  from solved e a3 obtain n where bt: "backtrack_calls cw doms2 [] = Inr (Some a, n)"
    by (auto simp: solve_def solve_calls_def split: sum.splits prod.splits)
  from dk k2 have d2: "distinct (map fst doms2)" by simp
  from backtrack_calls_sound[OF d2 _ _ consistent_empty bt] k2
  have da: "distinct (map fst a)" and ka: "set (map fst a) = set (map fst doms)"
    and ca: "consistent cw a = Inr True" by simp_all
  from ka have cpl: "assignment_complete doms a"
    by (auto simp: assignment_complete_def list_ex_iff map_of_eq_None_iff)
  from ka ks have sub: "set (map fst a) \<subseteq> set (variables cw)" by simp
  from consistent_iff[OF wf da sub] ca
  have "words_distinct a \<and> lengths_match a \<and> crossings_agree cw a" by simp
  with da ka ks cpl ca show ?thesis by simp
qed

theorem solve_sound_witness:
  "solve (ex_crossword ex_words3) (init_domains (ex_crossword ex_words3))
     = Inr (Some ex_solution) \<and>
   distinct (map fst ex_solution) \<and>
   set (map fst ex_solution) = set (variables (ex_crossword ex_words3)) \<and>
   assignment_complete (init_domains (ex_crossword ex_words3)) ex_solution \<and>
   consistent (ex_crossword ex_words3) ex_solution = Inr True \<and>
   words_distinct ex_solution \<and> lengths_match ex_solution \<and>
   crossings_agree (ex_crossword ex_words3) ex_solution"
proof -
  have s: "solve (ex_crossword ex_words3) (init_domains (ex_crossword ex_words3))
      = Inr (Some ex_solution)"
    by code_simp
  from solve_sound[OF ex_wf_crossword init_domains_wf[OF ex_wf_crossword] s] s
  show ?thesis by simp
qed

subsection \<open>Solve after a failed AC-3\<close>

lemma enc_words_keys:
  "enc_words var ws doms = Inr doms' \<Longrightarrow> map fst doms' = map fst doms"
proof (induction ws arbitrary: doms)
  case Nil
  then show ?case by simp
next
  case (Cons word rest)
  show ?case
  proof (cases "length word \<noteq> var_length var")
    case False
    with Cons show ?thesis by simp
  next
    case True
    with Cons.prems obtain d1 where r: "domain_remove doms var word = Inr d1"
      and c: "enc_words var rest d1 = Inr doms'"
      by (auto split: sum.splits)
    from domain_remove_frame[OF r] Cons.IH[OF c] show ?thesis by simp
  qed
qed

lemma enc_vars_keys:
  "enc_vars snap doms = Inr doms' \<Longrightarrow> map fst doms' = map fst doms"
proof (induction snap arbitrary: doms)
  case Nil
  then show ?case by simp
next
  case (Cons item rest)
  obtain var ws where item: "item = (var, ws)" by (cases item)
  with Cons.prems obtain d1 where r: "enc_words var ws doms = Inr d1"
    and c: "enc_vars rest d1 = Inr doms'"
    by (auto split: sum.splits)
  from enc_words_keys[OF r] Cons.IH[OF c] show ?case by simp
qed

lemma enforce_node_consistency_keys:
  "enforce_node_consistency doms = Inr doms' \<Longrightarrow> map fst doms' = map fst doms"
  by (simp add: enforce_node_consistency_def enc_vars_keys)

text \<open>
  With an empty domain among the domains, the first call of \<^verbatim>\<open>backtrack\<close> selects a slot
  with an empty domain (it has the fewest words), has no candidate to try and returns
  \<^verbatim>\<open>None\<close>: one invocation, no recursion.
\<close>

lemma backtrack_calls_empty_domain:
  assumes dk: "distinct (map fst doms)" and empty: "map_of doms x = Some []"
  shows "backtrack_calls cw doms [] = Inr (None, 1)"
proof -
  from empty have item: "(x, []) \<in> set doms" by (rule map_of_SomeD)
  then have ne: "length ([] :: assignment) \<noteq> length doms" by auto
  from item have "\<exists>var \<in> fst ` set doms. var \<notin> fst ` set ([] :: assignment)" by force
  from select_unassigned_variable_min[OF this] obtain var ws where
    sel: "select_unassigned_variable doms [] = Inr var" and vi: "(var, ws) \<in> set doms"
    and least: "\<forall>(u, us) \<in> set doms. u \<notin> fst ` set ([] :: assignment) \<longrightarrow> length ws \<le> length us"
    by blast
  from least item have "ws = []" by auto
  with vi dk have "map_of doms var = Some []" by simp
  then have ord: "order_domain_values cw doms var [] = Inr []"
    by (simp add: order_domain_values_def)
  from ne sel ord show ?thesis
    by (simp add: backtrack_calls.simps[of cw doms "[]"])
qed

text \<open>
  Claim C1, as the code has it. When the AC-3 run of \<^verbatim>\<open>solve\<close> returns False (it has emptied
  a slot's domain), \<^verbatim>\<open>solve\<close> returns "no solution". It does not skip the search: the return
  value of \<^verbatim>\<open>ac3\<close> is dropped and \<^verbatim>\<open>backtrack\<close> is invoked on the empty assignment, once,
  without a recursive call.
\<close>

theorem solve_after_failed_ac3:
  assumes dk: "distinct (map fst doms)"
    and e: "enforce_node_consistency doms = Inr doms1"
    and a3: "ac3 cw doms1 None = (Inr False, doms2)"
  shows "solve cw doms = Inr None \<and> solve_calls cw doms = Inr (None, 1) \<and>
         (\<exists>x. map_of doms2 x = Some [])"
proof -
  from ac3_False[OF a3] obtain x where empty: "map_of doms2 x = Some []" by blast
  from enforce_node_consistency_keys[OF e] ac3_keys[OF a3] dk
  have "distinct (map fst doms2)" by simp
  from backtrack_calls_empty_domain[OF this empty]
  have "backtrack_calls cw doms2 [] = Inr (None, 1)" .
  with e a3 have "solve_calls cw doms = Inr (None, 1)"
    by (simp add: solve_calls_def)
  with empty show ?thesis by (auto simp: solve_def)
qed

text \<open>
  Claim C1, as stated, fails: with the words \<open>cat\<close> and \<open>dog\<close> AC-3 empties the domain of
  \<open>slot_a\<close> and returns False, and \<^verbatim>\<open>solve\<close> still invokes \<^verbatim>\<open>backtrack\<close> (one invocation,
  not none).
\<close>

theorem solve_invokes_backtrack_after_failed_ac3:
  "enforce_node_consistency (ex_domains ex_words2) = Inr (ex_domains ex_words2) \<and>
   ac3 (ex_crossword ex_words2) (ex_domains ex_words2) None
     = (Inr False, [(slot_a, []), (slot_b, ex_words2), (slot_c, ex_words2)]) \<and>
   solve_calls (ex_crossword ex_words2) (ex_domains ex_words2) = Inr (None, 1) \<and>
   solve_calls (ex_crossword ex_words2) (ex_domains ex_words2) \<noteq> Inr (None, 0)"
  by code_simp

theorem solve_after_failed_ac3_witness:
  "solve (ex_crossword ex_words2) (ex_domains ex_words2) = Inr None \<and>
   solve_calls (ex_crossword ex_words2) (ex_domains ex_words2) = Inr (None, 1) \<and>
   (\<exists>x. map_of [(slot_a, []), (slot_b, ex_words2), (slot_c, ex_words2)] x = Some [])"
proof -
  have dk: "distinct (map fst (ex_domains ex_words2))" by code_simp
  have e: "enforce_node_consistency (ex_domains ex_words2) = Inr (ex_domains ex_words2)"
    by code_simp
  have a3: "ac3 (ex_crossword ex_words2) (ex_domains ex_words2) None
     = (Inr False, [(slot_a, []), (slot_b, ex_words2), (slot_c, ex_words2)])"
    by code_simp
  from solve_after_failed_ac3[OF dk e a3] show ?thesis .
qed

subsection \<open>AC-3 on a well-formed crossword\<close>

lemma find_match_iff:
  "p < length x_word \<Longrightarrow> \<forall>y_word \<in> set ys. q < length y_word \<Longrightarrow>
   find_match x_word p q ys = Inr (\<exists>y_word \<in> set ys. x_word ! p = y_word ! q)"
  by (induction ys) (auto simp: char_at_def)

text \<open>
  The loop of \<^verbatim>\<open>revise\<close> over the copied words of \<open>x\<close>, when no index is out of range:
  it raises nothing and leaves in the live domain the words not yet visited and the
  visited words that have a match in the copied domain of \<open>y\<close>.
\<close>

lemma revise_words_filter:
  assumes my: "map_of domain y = Some ys" and ly: "\<forall>y_word \<in> set ys. q < length y_word"
  shows "map_of doms x = Some live \<Longrightarrow> distinct xs \<Longrightarrow> set xs \<subseteq> set live \<Longrightarrow>
   \<forall>x_word \<in> set xs. p < length x_word \<Longrightarrow>
   \<exists>b. revise_words domain x y p q xs doms revised =
     (Inr b, AList.update x
        (filter (\<lambda>w. w \<notin> set xs \<or> (\<exists>y_word \<in> set ys. w ! p = y_word ! q)) live) doms)"
proof (induction xs arbitrary: doms live revised)
  case Nil
  then show ?case by (simp add: update_triv)
next
  case (Cons x_word rest)
  let ?sup = "\<lambda>w. \<exists>y_word \<in> set ys. w ! p = y_word ! q"
  from Cons.prems have px: "p < length x_word" by simp
  from find_match_iff[OF px ly] have fm: "find_match x_word p q ys = Inr (?sup x_word)" .
  from Cons.prems have dr: "distinct rest" and lr: "\<forall>w \<in> set rest. p < length w"
    and xr: "x_word \<notin> set rest" by simp_all
  show ?case
  proof (cases "?sup x_word")
    case True
    have "filter (\<lambda>w. w \<notin> set (x_word # rest) \<or> ?sup w) live
        = filter (\<lambda>w. w \<notin> set rest \<or> ?sup w) live"
      using True by (intro filter_cong) auto
    moreover from Cons.prems have "set rest \<subseteq> set live" by simp
    from Cons.IH[OF Cons.prems(1) dr this lr] obtain b where
      "revise_words domain x y p q rest doms revised =
         (Inr b, AList.update x (filter (\<lambda>w. w \<notin> set rest \<or> ?sup w) live) doms)" by blast
    ultimately show ?thesis using my fm True by simp
  next
    case False
    let ?live = "removeAll x_word live"
    let ?doms = "AList.update x ?live doms"
    from Cons.prems have rem: "domain_remove doms x x_word = Inr ?doms"
      by (simp add: domain_remove_member)
    have m: "map_of ?doms x = Some ?live" by (simp add: update_conv')
    from Cons.prems xr have sub: "set rest \<subseteq> set ?live" by auto
    have "filter (\<lambda>w. w \<notin> set rest \<or> ?sup w) ?live
        = filter (\<lambda>w. w \<notin> set (x_word # rest) \<or> ?sup w) live"
      unfolding removeAll_filter_not_eq filter_filter
      using False by (intro filter_cong) auto
    moreover from Cons.IH[OF m dr sub lr] obtain b where
      "revise_words domain x y p q rest ?doms True =
         (Inr b, AList.update x (filter (\<lambda>w. w \<notin> set rest \<or> ?sup w) ?live) ?doms)" by blast
    ultimately show ?thesis using my fm False rem by simp
  qed
qed

lemma revise_result:
  assumes ov: "overlaps cw (x, y) = Some (Some (p, q))"
    and mx: "map_of doms x = Some xs" and my: "map_of doms y = Some ys"
    and dx: "distinct xs"
    and lx: "\<forall>x_word \<in> set xs. p < length x_word"
    and ly: "\<forall>y_word \<in> set ys. q < length y_word"
  shows "\<exists>b xs'. revise cw doms x y = (Inr b, AList.update x xs' doms) \<and>
           set xs' \<subseteq> set xs \<and> distinct xs' \<and>
           (\<forall>w \<in> set xs. (\<exists>y_word \<in> set ys. w ! p = y_word ! q) \<longrightarrow> w \<in> set xs')"
proof (cases "p = 0")
  case True
  with ov have "revise cw doms x y = (Inr False, doms)" by (simp add: revise_def)
  with mx have "revise cw doms x y = (Inr False, AList.update x xs doms)"
    by (simp add: update_triv)
  with dx show ?thesis by blast
next
  case False
  let ?xs = "filter (\<lambda>w. w \<notin> set xs \<or> (\<exists>y_word \<in> set ys. w ! p = y_word ! q)) xs"
  from revise_words_filter[OF my ly mx dx subset_refl lx] obtain b where
    "revise_words doms x y p q xs doms False = (Inr b, AList.update x ?xs doms)" by blast
  with ov mx False have "revise cw doms x y = (Inr b, AList.update x ?xs doms)"
    by (simp add: revise_def)
  moreover have "set ?xs \<subseteq> set xs" by auto
  moreover from dx have "distinct ?xs" by simp
  moreover have "\<forall>w \<in> set xs. (\<exists>y_word \<in> set ys. w ! p = y_word ! q) \<longrightarrow> w \<in> set ?xs"
    by auto
  ultimately show ?thesis by blast
qed

lemma set_update_subset: "set (AList.update k v al) \<subseteq> insert (k, v) (set al)"
  by (induction al) auto

lemma wf_domains_lookup:
  assumes "wf_domains cw doms" and "x \<in> set (variables cw)"
  shows "\<exists>xs. map_of doms x = Some xs \<and> (x, xs) \<in> set doms \<and> distinct xs"
proof -
  from assms have "x \<in> fst ` set doms" by (simp add: wf_domains_def)
  then obtain xs where i: "(x, xs) \<in> set doms" by force
  with assms(1) have "map_of doms x = Some xs" "distinct xs"
    by (auto simp: wf_domains_def)
  with i show ?thesis by blast
qed

lemma node_consistentD:
  "node_consistent doms \<Longrightarrow> (var, ws) \<in> set doms \<Longrightarrow> w \<in> set ws \<Longrightarrow> length w = var_length var"
  by (fastforce simp: node_consistent_def)

text \<open>Shrinking one domain keeps the domains well formed and node consistent.\<close>

lemma domains_update_shrink:
  assumes wd: "wf_domains cw doms" and nc: "node_consistent doms"
    and mx: "map_of doms x = Some xs" and sub: "set xs' \<subseteq> set xs" and dx: "distinct xs'"
  shows "wf_domains cw (AList.update x xs' doms) \<and> node_consistent (AList.update x xs' doms)"
proof -
  let ?d = "AList.update x xs' doms"
  from mx have ix: "(x, xs) \<in> set doms" by (rule map_of_SomeD)
  then have "x \<in> set (map fst doms)" by force
  then have keys: "map fst ?d = map fst doms" by (simp add: update_keys)
  have items: "\<And>var ws. (var, ws) \<in> set ?d \<Longrightarrow> (var, ws) = (x, xs') \<or> (var, ws) \<in> set doms"
    using set_update_subset[of x xs' doms] by auto
  have "\<forall>(var, ws) \<in> set ?d. distinct ws"
  proof (clarify)
    fix var ws assume "(var, ws) \<in> set ?d"
    from items[OF this] wd dx show "distinct ws" by (auto simp: wf_domains_def)
  qed
  with wd keys have w: "wf_domains cw ?d" by (simp add: wf_domains_def)
  have "\<forall>(var, ws) \<in> set ?d. \<forall>w \<in> set ws. length w = var_length var"
  proof (clarify)
    fix var ws w assume i: "(var, ws) \<in> set ?d" and w: "w \<in> set ws"
    from items[OF i] show "length w = var_length var"
    proof
      assume "(var, ws) = (x, xs')"
      with w sub have "var = x" "w \<in> set xs" by auto
      with node_consistentD[OF nc ix] show ?thesis by simp
    next
      assume "(var, ws) \<in> set doms"
      from node_consistentD[OF nc this w] show ?thesis .
    qed
  qed
  then have "node_consistent ?d" by (simp add: node_consistent_def)
  with w show ?thesis by simp
qed

lemma within_domainsD:
  "within_domains doms s \<Longrightarrow> (var, word) \<in> set s \<Longrightarrow>
   \<exists>ws. map_of doms var = Some ws \<and> word \<in> set ws"
  by (fastforce simp: within_domains_def split: option.splits)

lemma crossings_agreeD:
  "crossings_agree cw s \<Longrightarrow> (u, u_word) \<in> set s \<Longrightarrow> (v, v_word) \<in> set s \<Longrightarrow>
   overlaps cw (u, v) = Some (Some (p, q)) \<Longrightarrow> u_word ! p = v_word ! q"
  by (fastforce simp: crossings_agree_def)

text \<open>
  A revision of an arc of a well-formed crossword raises nothing, keeps the domains well
  formed and node consistent, and removes no word of an assignment whose crossings agree.
\<close>

lemma revise_ok:
  assumes wf: "wf_crossword cw" and wd: "wf_domains cw doms" and nc: "node_consistent doms"
    and x: "x \<in> set (variables cw)" and y: "y \<in> set (variables cw)"
    and ov: "overlaps cw (x, y) = Some (Some (p, q))"
    and ks: "set (map fst s) = set (variables cw)" and ca: "crossings_agree cw s"
    and wi: "within_domains doms s"
  shows "\<exists>b xs'. revise cw doms x y = (Inr b, AList.update x xs' doms) \<and>
           wf_domains cw (AList.update x xs' doms) \<and>
           node_consistent (AList.update x xs' doms) \<and>
           within_domains (AList.update x xs' doms) s"
proof -
  from wf_domains_lookup[OF wd x] obtain xs where
    mx: "map_of doms x = Some xs" and ix: "(x, xs) \<in> set doms" and dx: "distinct xs" by blast
  from wf_domains_lookup[OF wd y] obtain ys where
    my: "map_of doms y = Some ys" and iy: "(y, ys) \<in> set doms" by blast
  from wf_crossword_overlap[OF wf x y ov] have p: "p < var_length x" and q: "q < var_length y"
    by simp_all
  from p node_consistentD[OF nc ix] have lx: "\<forall>x_word \<in> set xs. p < length x_word" by simp
  from q node_consistentD[OF nc iy] have ly: "\<forall>y_word \<in> set ys. q < length y_word" by simp
  from revise_result[OF ov mx my dx lx ly] obtain b xs' where
    r: "revise cw doms x y = (Inr b, AList.update x xs' doms)"
    and sub: "set xs' \<subseteq> set xs" and dx': "distinct xs'"
    and keep: "\<forall>w \<in> set xs. (\<exists>y_word \<in> set ys. w ! p = y_word ! q) \<longrightarrow> w \<in> set xs'"
    by blast
  let ?d = "AList.update x xs' doms"
  note inv = domains_update_shrink[OF wd nc mx sub dx']
  have "within_domains ?d s"
    unfolding within_domains_def
  proof (clarify)
    fix var word assume i: "(var, word) \<in> set s"
    from within_domainsD[OF wi i] obtain ws where
      mv: "map_of doms var = Some ws" and w: "word \<in> set ws" by blast
    show "case map_of ?d var of None \<Rightarrow> False | Some ws \<Rightarrow> word \<in> set ws"
    proof (cases "var = x")
      case False
      with mv w show ?thesis by (simp add: update_conv')
    next
      case True
      with mv mx w have wx: "word \<in> set xs" by simp
      from y ks have "y \<in> fst ` set s" by simp
      then obtain y_word where j: "(y, y_word) \<in> set s" by force
      from within_domainsD[OF wi j] my have "y_word \<in> set ys" by simp
      moreover from crossings_agreeD[OF ca _ j ov] i True have "word ! p = y_word ! q"
        by simp
      ultimately have "word \<in> set xs'" using keep wx by blast
      with True show ?thesis by (simp add: update_conv')
    qed
  qed
  with r inv show ?thesis by blast
qed

lemma arcs_okD:
  "arcs_ok cw queue \<Longrightarrow> (x, y) \<in> set queue \<Longrightarrow>
   x \<in> set (variables cw) \<and> y \<in> set (variables cw) \<and>
   (\<exists>p q. overlaps cw (x, y) = Some (Some (p, q)))"
  by (fastforce simp: arcs_ok_def split: option.splits)

lemma arcs_okI:
  "(\<And>x y. (x, y) \<in> set queue \<Longrightarrow>
      x \<in> set (variables cw) \<and> y \<in> set (variables cw) \<and>
      (\<exists>p q. overlaps cw (x, y) = Some (Some (p, q)))) \<Longrightarrow> arcs_ok cw queue"
  by (fastforce simp: arcs_ok_def)

lemma arcs_ok_requeue:
  assumes wf: "wf_crossword cw" and ok: "arcs_ok cw queue" and x: "x \<in> set (variables cw)"
  shows "arcs_ok cw (butlast queue @ map (\<lambda>neighbor. (neighbor, x))
                      (filter (\<lambda>neighbor. neighbor \<noteq> y) (neighbors cw x)))"
proof (rule arcs_okI)
  fix u v
  assume "(u, v) \<in> set (butlast queue @ map (\<lambda>neighbor. (neighbor, x))
                      (filter (\<lambda>neighbor. neighbor \<noteq> y) (neighbors cw x)))"
  then consider "(u, v) \<in> set (butlast queue)" | "v = x" "u \<in> set (neighbors cw x)"
    by auto
  then show "u \<in> set (variables cw) \<and> v \<in> set (variables cw) \<and>
      (\<exists>p q. overlaps cw (u, v) = Some (Some (p, q)))"
  proof cases
    case 1
    then have "(u, v) \<in> set queue" by (rule in_set_butlastD)
    from arcs_okD[OF ok this] show ?thesis .
  next
    case 2
    from wf_crossword_neighbor[OF wf x 2(2)] obtain p q where
      u: "u \<in> set (variables cw)" and o: "overlaps cw (x, u) = Some (Some (p, q))" by blast
    from wf_crossword_overlap[OF wf x u o] have "overlaps cw (u, x) = Some (Some (q, p))"
      by simp
    with u x 2(1) show ?thesis by blast
  qed
qed

lemma arcs_ok_butlast: "arcs_ok cw queue \<Longrightarrow> arcs_ok cw (butlast queue)"
  by (rule arcs_okI) (auto dest: in_set_butlastD arcs_okD)

text \<open>
  The loop of AC-3 on a well-formed crossword with node-consistent domains: no exception,
  and an assignment to all slots whose crossings agree stays within the domains.
\<close>

lemma ac3_loop_ok:
  "wf_crossword cw \<Longrightarrow> set (map fst s) = set (variables cw) \<Longrightarrow> crossings_agree cw s \<Longrightarrow>
   wf_domains cw doms \<Longrightarrow> node_consistent doms \<Longrightarrow> arcs_ok cw queue \<Longrightarrow>
   within_domains doms s \<Longrightarrow>
   \<exists>b doms'. ac3_loop cw doms queue = (Inr b, doms') \<and> wf_domains cw doms' \<and>
      node_consistent doms' \<and> within_domains doms' s"
proof (induction cw doms queue rule: ac3_loop.induct)
  case (1 cw doms queue)
  note wf = "1.prems"(1) and ks = "1.prems"(2) and ca = "1.prems"(3)
    and wd = "1.prems"(4) and nc = "1.prems"(5) and ok = "1.prems"(6) and wi = "1.prems"(7)
  show ?case
  proof (cases "length queue = 0")
    case True
    then have "ac3_loop cw doms queue = (Inr True, doms)"
      by (subst ac3_loop.simps) simp
    with wd nc wi show ?thesis by blast
  next
    case ne: False
    obtain x y where xy: "last queue = (x, y)" by (cases "last queue")
    from ne have "last queue \<in> set queue" by simp
    with xy have "(x, y) \<in> set queue" by simp
    from arcs_okD[OF ok this] obtain p q where x: "x \<in> set (variables cw)"
      and y: "y \<in> set (variables cw)" and ov: "overlaps cw (x, y) = Some (Some (p, q))"
      by blast
    from revise_ok[OF wf wd nc x y ov ks ca wi] obtain b xs' where
      rv: "revise cw doms x y = (Inr b, AList.update x xs' doms)"
      and wd1: "wf_domains cw (AList.update x xs' doms)"
      and nc1: "node_consistent (AList.update x xs' doms)"
      and wi1: "within_domains (AList.update x xs' doms) s" by blast
    let ?d = "AList.update x xs' doms"
    have mx: "map_of ?d x = Some xs'" by (simp add: update_conv')
    show ?thesis
    proof (cases b)
      case False
      from "1.IH"(2)[OF ne refl xy[symmetric] refl rv[symmetric] refl False
          wf ks ca wd1 nc1 arcs_ok_butlast[OF ok] wi1]
      obtain b' doms' where r: "ac3_loop cw ?d (butlast queue) = (Inr b', doms')"
        and inv: "wf_domains cw doms'" "node_consistent doms'" "within_domains doms' s"
        by blast
      from ne xy rv False r have "ac3_loop cw doms queue = (Inr b', doms')"
        by (subst ac3_loop.simps) simp
      with inv show ?thesis by blast
    next
      case True
      show ?thesis
      proof (cases "length xs' = 0")
        case empty: True
        from ne xy rv True mx empty have "ac3_loop cw doms queue = (Inr False, ?d)"
          by (subst ac3_loop.simps) simp
        with wd1 nc1 wi1 show ?thesis by blast
      next
        case nonempty: False
        let ?q = "butlast queue @ map (\<lambda>neighbor. (neighbor, x))
                      (filter (\<lambda>neighbor. neighbor \<noteq> y) (neighbors cw x))"
        from "1.IH"(1)[OF ne refl xy[symmetric] refl rv[symmetric] refl True mx nonempty
            wf ks ca wd1 nc1 arcs_ok_requeue[OF wf ok x] wi1]
        obtain b' doms' where r: "ac3_loop cw ?d ?q = (Inr b', doms')"
          and inv: "wf_domains cw doms'" "node_consistent doms'" "within_domains doms' s"
          by blast
        from ne xy rv True mx nonempty r have "ac3_loop cw doms queue = (Inr b', doms')"
          by (subst ac3_loop.simps) simp
        with inv show ?thesis by blast
      qed
    qed
  qed
qed

text \<open>The initial queue holds crossing pairs of slots only, and building it raises nothing.\<close>

lemma arcs_from_ok:
  assumes wf: "wf_crossword cw" and v: "var_1 \<in> set (variables cw)"
  shows "set ns \<subseteq> set (neighbors cw var_1) \<Longrightarrow> arcs_ok cw queue \<Longrightarrow>
    \<exists>queue'. arcs_from cw var_1 ns queue = Inr queue' \<and> arcs_ok cw queue'"
proof (induction ns arbitrary: queue)
  case Nil
  then show ?case by simp
next
  case (Cons var_2 rest)
  then have n: "var_2 \<in> set (neighbors cw var_1)" and sub: "set rest \<subseteq> set (neighbors cw var_1)"
    by auto
  from wf_crossword_neighbor[OF wf v n] obtain p q where
    v2: "var_2 \<in> set (variables cw)" and ov: "overlaps cw (var_1, var_2) = Some (Some (p, q))"
    by blast
  have "arcs_ok cw (queue @ [(var_1, var_2)])"
  proof (rule arcs_okI)
    fix x y assume "(x, y) \<in> set (queue @ [(var_1, var_2)])"
    then consider "(x, y) \<in> set queue" | "x = var_1" "y = var_2" by auto
    then show "x \<in> set (variables cw) \<and> y \<in> set (variables cw) \<and>
      (\<exists>p q. overlaps cw (x, y) = Some (Some (p, q)))"
    proof cases
      case 1
      from arcs_okD[OF Cons.prems(2) this] show ?thesis .
    next
      case 2
      with v v2 ov show ?thesis by blast
    qed
  qed
  from Cons.IH[OF sub this] ov show ?case by simp
qed

lemma all_arcs_ok:
  assumes wf: "wf_crossword cw"
  shows "set vs \<subseteq> set (variables cw) \<Longrightarrow> arcs_ok cw queue \<Longrightarrow>
    \<exists>queue'. all_arcs cw vs queue = Inr queue' \<and> arcs_ok cw queue'"
proof (induction vs arbitrary: queue)
  case Nil
  then show ?case by simp
next
  case (Cons var_1 rest)
  then have v: "var_1 \<in> set (variables cw)" and sub: "set rest \<subseteq> set (variables cw)"
    by auto
  from arcs_from_ok[OF wf v subset_refl Cons.prems(2)] obtain q1 where
    a: "arcs_from cw var_1 (neighbors cw var_1) queue = Inr q1" and ok1: "arcs_ok cw q1"
    by blast
  from Cons.IH[OF sub ok1] a show ?case by simp
qed

lemma ac3_ok:
  assumes wf: "wf_crossword cw"
    and ks: "set (map fst s) = set (variables cw)" and ca: "crossings_agree cw s"
    and wd: "wf_domains cw doms" and nc: "node_consistent doms"
    and wi: "within_domains doms s"
  shows "\<exists>b doms'. ac3 cw doms None = (Inr b, doms') \<and> wf_domains cw doms' \<and>
      node_consistent doms' \<and> within_domains doms' s"
proof -
  from wd have "set (map fst doms) \<subseteq> set (variables cw)" by (simp add: wf_domains_def)
  moreover have "arcs_ok cw []" by (simp add: arcs_ok_def)
  ultimately obtain queue where q: "all_arcs cw (map fst doms) [] = Inr queue"
    and ok: "arcs_ok cw queue"
    using all_arcs_ok[OF wf] by blast
  from ac3_loop_ok[OF wf ks ca wd nc ok wi] q show ?thesis by (simp add: ac3_def)
qed

subsection \<open>Backtracking finds a solution\<close>

lemma count_ruled_out_ok:
  "p < length word \<Longrightarrow> \<forall>neighbor_word \<in> set ns. q < length neighbor_word \<Longrightarrow>
   \<exists>count'. count_ruled_out word p q ns count = Inr count'"
  by (induction ns arbitrary: count) (auto simp: char_at_def)

lemma count_neighbors_ok:
  assumes wf: "wf_crossword cw" and wd: "wf_domains cw doms" and nc: "node_consistent doms"
    and v: "var \<in> set (variables cw)" and lw: "length word = var_length var"
  shows "set ns \<subseteq> set (neighbors cw var) \<Longrightarrow>
    \<exists>count'. count_neighbors cw doms assignment var word ns count = Inr count'"
proof (induction ns arbitrary: count)
  case Nil
  then show ?case by simp
next
  case (Cons neighbor rest)
  then have n: "neighbor \<in> set (neighbors cw var)" and sub: "set rest \<subseteq> set (neighbors cw var)"
    by auto
  show ?case
  proof (cases "map_of assignment neighbor \<noteq> None")
    case True
    with Cons.IH[OF sub] show ?thesis by simp
  next
    case False
    from wf_crossword_neighbor[OF wf v n] obtain p q where
      nv: "neighbor \<in> set (variables cw)" and ov: "overlaps cw (var, neighbor) = Some (Some (p, q))"
      by blast
    from wf_crossword_overlap[OF wf v nv ov] have p: "p < var_length var"
      and q: "q < var_length neighbor" by simp_all
    from wf_domains_lookup[OF wd nv] obtain nws where
      mn: "map_of doms neighbor = Some nws" and ni: "(neighbor, nws) \<in> set doms" by blast
    from q node_consistentD[OF nc ni] have "\<forall>neighbor_word \<in> set nws. q < length neighbor_word"
      by simp
    moreover from p lw have "p < length word" by simp
    ultimately obtain c1 where "count_ruled_out word p q nws count = Inr c1"
      using count_ruled_out_ok by blast
    with False ov mn Cons.IH[OF sub, of c1] show ?thesis by simp
  qed
qed

lemma value_counts_ok:
  assumes wf: "wf_crossword cw" and wd: "wf_domains cw doms" and nc: "node_consistent doms"
    and v: "var \<in> set (variables cw)"
  shows "\<forall>word \<in> set ws. length word = var_length var \<Longrightarrow>
    \<exists>ordered_values'. value_counts cw doms assignment var ws ordered_values = Inr ordered_values' \<and>
       fst ` set ordered_values' = fst ` set ordered_values \<union> set ws"
proof (induction ws arbitrary: ordered_values)
  case Nil
  then show ?case by simp
next
  case (Cons word rest)
  then have lw: "length word = var_length var"
    and lr: "\<forall>word \<in> set rest. length word = var_length var" by simp_all
  from count_neighbors_ok[OF wf wd nc v lw subset_refl] obtain count where
    c: "count_neighbors cw doms assignment var word (neighbors cw var) 0 = Inr count" by blast
  from Cons.IH[OF lr, of "AList.update word count ordered_values"] obtain ov' where
    r: "value_counts cw doms assignment var rest (AList.update word count ordered_values) = Inr ov'"
    and k: "fst ` set ov' = fst ` set (AList.update word count ordered_values) \<union> set rest"
    by blast
  from k have "fst ` set ov' = fst ` set ordered_values \<union> set (word # rest)"
    by (auto simp: dom_update)
  with c r show ?case by simp
qed

text \<open>
  On a well-formed crossword with node-consistent domains \<^verbatim>\<open>order_domain_values\<close> raises
  nothing and returns every word of the slot's domain.
\<close>

lemma order_domain_values_ok:
  assumes wf: "wf_crossword cw" and wd: "wf_domains cw doms" and nc: "node_consistent doms"
    and v: "var \<in> set (variables cw)" and mv: "map_of doms var = Some ws"
  shows "\<exists>vals. order_domain_values cw doms var assignment = Inr vals \<and> set vals = set ws"
proof -
  from mv have "(var, ws) \<in> set doms" by (rule map_of_SomeD)
  from node_consistentD[OF nc this] have "\<forall>word \<in> set ws. length word = var_length var"
    by simp
  from value_counts_ok[OF wf wd nc v this, of assignment "[]"] obtain ov' where
    r: "value_counts cw doms assignment var ws [] = Inr ov'" and k: "fst ` set ov' = set ws"
    by auto
  from r mv have "order_domain_values cw doms var assignment = Inr (sort (map fst ov'))"
    by (simp add: order_domain_values_def)
  moreover from k have "set (sort (map fst ov')) = set ws" by simp
  ultimately show ?thesis by blast
qed

text \<open>
  The loop over the candidates: when no branch raises, the loop raises nothing, and it
  returns an assignment when some branch does.
\<close>

lemma try_each_ok:
  "\<forall>v \<in> set vs. \<exists>res k. branch v = Inr (res, k) \<Longrightarrow>
   \<exists>res n. try_each branch vs calls = Inr (res, n) \<and>
     ((\<exists>v \<in> set vs. \<exists>r k. branch v = Inr (Some r, k)) \<longrightarrow> res \<noteq> None)"
proof (induction vs arbitrary: calls)
  case Nil
  then show ?case by simp
next
  case (Cons v rest)
  then obtain res k where b: "branch v = Inr (res, k)" by auto
  show ?case
  proof (cases res)
    case (Some r)
    with b show ?thesis by simp
  next
    case None
    from Cons.prems have "\<forall>v \<in> set rest. \<exists>res k. branch v = Inr (res, k)" by simp
    from Cons.IH[OF this, of "calls + k"] obtain res' n where
      r: "try_each branch rest (calls + k) = Inr (res', n)"
      and f: "(\<exists>v \<in> set rest. \<exists>r k. branch v = Inr (Some r, k)) \<longrightarrow> res' \<noteq> None"
      by blast
    from b None r have "try_each branch (v # rest) calls = Inr (res', n)" by simp
    moreover from b None f
    have "(\<exists>u \<in> set (v # rest). \<exists>r k. branch u = Inr (Some r, k)) \<longrightarrow> res' \<noteq> None"
      by auto
    ultimately show ?thesis by blast
  qed
qed

text \<open>A part of an assignment with distinct words, matching lengths and agreeing crossings
  has the three properties too.\<close>

lemma consistent_part:
  assumes sub: "set a \<subseteq> set s" and da: "distinct (map fst a)"
    and ws: "words_distinct s" and ls: "lengths_match s" and cs: "crossings_agree cw s"
  shows "words_distinct a \<and> lengths_match a \<and> crossings_agree cw a"
proof -
  from da have "distinct a" by (simp add: distinct_map)
  moreover from ws have "inj_on snd (set s)" by (simp add: words_distinct_def distinct_map)
  with sub have "inj_on snd (set a)" by (blast intro: inj_on_subset)
  ultimately have "words_distinct a" by (simp add: words_distinct_def distinct_map)
  moreover from sub ls have "lengths_match a" by (auto simp: lengths_match_def)
  moreover from sub cs have "crossings_agree cw a"
    unfolding crossings_agree_def by blast
  ultimately show ?thesis by simp
qed

lemma unassigned_exists:
  assumes dd: "distinct (map fst doms)" and da: "distinct (map fst a)"
    and sub: "set (map fst a) \<subseteq> set (map fst doms)" and ne: "length a \<noteq> length doms"
  shows "\<exists>var \<in> fst ` set doms. var \<notin> fst ` set a"
proof (rule ccontr)
  assume "\<not> ?thesis"
  with sub have "set (map fst a) = set (map fst doms)" by auto
  then have "card (set (map fst a)) = card (set (map fst doms))" by simp
  moreover have "card (set (map fst a)) = length (map fst a)" using da by (rule distinct_card)
  moreover have "card (set (map fst doms)) = length (map fst doms)"
    using dd by (rule distinct_card)
  ultimately show False using ne by simp
qed

text \<open>
  On a well-formed crossword with node-consistent domains \<^verbatim>\<open>backtrack\<close> raises nothing, and it
  returns an assignment when the assignment it starts from is part of a satisfying one.
\<close>

lemma backtrack_calls_complete:
  "wf_crossword cw \<Longrightarrow> wf_domains cw doms \<Longrightarrow> node_consistent doms \<Longrightarrow>
   distinct (map fst a) \<Longrightarrow> set (map fst a) \<subseteq> set (variables cw) \<Longrightarrow>
   \<exists>res n. backtrack_calls cw doms a = Inr (res, n) \<and>
     ((\<exists>s. set a \<subseteq> set s \<and> distinct (map fst s) \<and> set (map fst s) = set (variables cw) \<and>
           within_domains doms s \<and> words_distinct s \<and> lengths_match s \<and>
           crossings_agree cw s) \<longrightarrow> res \<noteq> None)"
proof (induction cw doms a rule: backtrack_calls.induct)
  case (1 cw doms a)
  note wf = "1.prems"(1) and wd = "1.prems"(2) and nc = "1.prems"(3)
    and da = "1.prems"(4) and ka = "1.prems"(5)
  from wd have dd: "distinct (map fst doms)" and kd: "set (map fst doms) = set (variables cw)"
    by (simp_all add: wf_domains_def)
  show ?case
  proof (cases "length a = length doms")
    case True
    then have "backtrack_calls cw doms a = Inr (Some a, 1)"
      by (subst backtrack_calls.simps) simp
    then show ?thesis by simp
  next
    case ne: False
    from ka kd have sub: "set (map fst a) \<subseteq> set (map fst doms)" by simp
    from select_unassigned_variable_min[OF unassigned_exists[OF dd da sub ne]]
    obtain var ws where sel: "select_unassigned_variable doms a = Inr var"
      and vi: "(var, ws) \<in> set doms" and un: "var \<notin> fst ` set a" by blast
    from vi dd have mv: "map_of doms var = Some ws" by simp
    from vi kd have v: "var \<in> set (variables cw)" by force
    from order_domain_values_ok[OF wf wd nc v mv] obtain vals where
      ord: "order_domain_values cw doms var a = Inr vals" and sv: "set vals = set ws"
      by blast
    let ?branch = "\<lambda>v. let assignment_copy = AList.update var v a in
                     case consistent cw assignment_copy of
                       Inl e \<Rightarrow> Inl e
                     | Inr ok \<Rightarrow>
                         if ok then backtrack_calls cw doms assignment_copy
                         else Inr (None, 0)"
    have dc: "\<And>w. distinct (map fst (AList.update var w a))"
      using da by (rule distinct_update)
    have kc: "\<And>w. set (map fst (AList.update var w a)) \<subseteq> set (variables cw)"
      using ka v by (auto simp: dom_update)
    have no_raise: "\<forall>w \<in> set vals. \<exists>res k. ?branch w = Inr (res, k)"
    proof
      fix w assume "w \<in> set vals"
      let ?copy = "AList.update var w a"
      from consistent_iff[OF wf dc kc] obtain ok where c: "consistent cw ?copy = Inr ok"
        by blast
      show "\<exists>res k. ?branch w = Inr (res, k)"
      proof (cases ok)
        case False
        with c show ?thesis by simp
      next
        case True
        with c have c': "consistent cw ?copy = Inr True" by simp
        from "1.IH"[OF ne sel ord refl c' TrueI wf wd nc dc kc]
        obtain res k where "backtrack_calls cw doms ?copy = Inr (res, k)" by blast
        with c' show ?thesis by simp
      qed
    qed
    from try_each_ok[OF no_raise, of 1] obtain res n where
      te: "try_each ?branch vals 1 = Inr (res, n)"
      and found: "(\<exists>w \<in> set vals. \<exists>r k. ?branch w = Inr (Some r, k)) \<longrightarrow> res \<noteq> None"
      by blast
    from ne sel ord te have bt: "backtrack_calls cw doms a = Inr (res, n)"
      by (subst backtrack_calls.simps) simp
    have "res \<noteq> None"
      if ex: "\<exists>s. set a \<subseteq> set s \<and> distinct (map fst s) \<and>
             set (map fst s) = set (variables cw) \<and> within_domains doms s \<and>
             words_distinct s \<and> lengths_match s \<and> crossings_agree cw s"
    proof -
      from ex obtain s where as: "set a \<subseteq> set s" and ds: "distinct (map fst s)"
        and ks: "set (map fst s) = set (variables cw)" and wi: "within_domains doms s"
        and sem: "words_distinct s" "lengths_match s" "crossings_agree cw s" by blast
      from v ks have "var \<in> fst ` set s" by simp
      then obtain w where sw: "(var, w) \<in> set s" by force
      from within_domainsD[OF wi sw] mv have "w \<in> set ws" by simp
      with sv have wv: "w \<in> set vals" by simp
      let ?copy = "AList.update var w a"
      from set_update_subset[of var w a] as sw have cs: "set ?copy \<subseteq> set s" by auto
      from consistent_part[OF cs dc sem] consistent_iff[OF wf dc kc, of w]
      have c': "consistent cw ?copy = Inr True" by simp
      have "\<exists>s. set ?copy \<subseteq> set s \<and> distinct (map fst s) \<and>
             set (map fst s) = set (variables cw) \<and> within_domains doms s \<and>
             words_distinct s \<and> lengths_match s \<and> crossings_agree cw s"
        using cs ds ks wi sem by blast
      with "1.IH"[OF ne sel ord refl c' TrueI wf wd nc dc kc]
      obtain r k where "backtrack_calls cw doms ?copy = Inr (Some r, k)" by auto
      with c' have "?branch w = Inr (Some r, k)" by simp
      with wv found show ?thesis by blast
    qed
    with bt show ?thesis by blast
  qed
qed

subsection \<open>Solve finds a solution\<close>

text \<open>Node consistency keeps the domains well formed and keeps every word of the right
  length.\<close>

lemma enforce_node_consistency_ok:
  assumes wd: "wf_domains cw doms"
  shows "\<exists>doms1. enforce_node_consistency doms = Inr doms1 \<and> wf_domains cw doms1 \<and>
           node_consistent doms1 \<and>
           (\<forall>s. within_domains doms s \<and> lengths_match s \<longrightarrow> within_domains doms1 s)"
proof -
  from wd have dk: "distinct (map fst doms)" and ks: "set (map fst doms) = set (variables cw)"
    and dw: "\<forall>(var, ws) \<in> set doms. distinct ws"
    by (simp_all add: wf_domains_def)
  from enforce_node_consistency_result[OF dk dw] obtain doms1 where
    e: "enforce_node_consistency doms = Inr doms1" and k1: "map fst doms1 = map fst doms"
    and l1: "\<forall>var. map_of doms1 var =
        map_option (filter (\<lambda>w. length w = var_length var)) (map_of doms var)"
    by blast
  from dk k1 have d1: "distinct (map fst doms1)" by simp
  have item: "\<exists>ws. (var, ws) \<in> set doms \<and> ws1 = filter (\<lambda>w. length w = var_length var) ws"
    if "(var, ws1) \<in> set doms1" for var ws1
  proof -
    from that d1 have "map_of doms1 var = Some ws1" by simp
    with l1 obtain ws where "map_of doms var = Some ws"
      and "ws1 = filter (\<lambda>w. length w = var_length var) ws" by auto
    then show ?thesis by (auto dest: map_of_SomeD)
  qed
  have "\<forall>(var, ws) \<in> set doms1. distinct ws"
  proof (clarify)
    fix var ws1 assume "(var, ws1) \<in> set doms1"
    from item[OF this] dw show "distinct ws1" by auto
  qed
  with d1 k1 ks have w1: "wf_domains cw doms1" by (simp add: wf_domains_def)
  have "\<forall>(var, ws) \<in> set doms1. \<forall>w \<in> set ws. length w = var_length var"
  proof (clarify)
    fix var ws1 w assume "(var, ws1) \<in> set doms1" "w \<in> set ws1"
    with item show "length w = var_length var" by fastforce
  qed
  then have n1: "node_consistent doms1" by (simp add: node_consistent_def)
  have "\<forall>s. within_domains doms s \<and> lengths_match s \<longrightarrow> within_domains doms1 s"
  proof (intro allI impI)
    fix s assume a: "within_domains doms s \<and> lengths_match s"
    show "within_domains doms1 s"
      unfolding within_domains_def
    proof (clarify)
      fix var word assume i: "(var, word) \<in> set s"
      from a within_domainsD[OF _ i] obtain ws where
        m: "map_of doms var = Some ws" and w: "word \<in> set ws" by blast
      from a i have "length word = var_length var" by (auto simp: lengths_match_def)
      with m w l1 show "case map_of doms1 var of None \<Rightarrow> False | Some ws \<Rightarrow> word \<in> set ws"
        by simp
    qed
  qed
  with e w1 n1 show ?thesis by blast
qed

text \<open>
  Claim C2. When the domains a well-formed puzzle starts from admit an assignment that
  binds every slot and is accepted by \<^verbatim>\<open>consistent\<close>, \<^verbatim>\<open>solve\<close> raises nothing and returns an
  assignment (not \<^verbatim>\<open>None\<close>) that binds every slot and is accepted by \<^verbatim>\<open>consistent\<close>.
\<close>

theorem solve_complete:
  assumes wf: "wf_crossword cw" and wd: "wf_domains cw doms" and sol: "solution cw doms s"
  shows "\<exists>a. solve cw doms = Inr (Some a) \<and> distinct (map fst a) \<and>
           set (map fst a) = set (variables cw) \<and> consistent cw a = Inr True"
proof -
  from sol have ds: "distinct (map fst s)" and ks: "set (map fst s) = set (variables cw)"
    and wi: "within_domains doms s" and cs: "consistent cw s = Inr True"
    by (simp_all add: solution_def)
  from ks have "set (map fst s) \<subseteq> set (variables cw)" by simp
  from consistent_iff[OF wf ds this] cs
  have sem: "words_distinct s" "lengths_match s" "crossings_agree cw s" by simp_all
  from enforce_node_consistency_ok[OF wd] wi sem(2) obtain doms1 where
    e: "enforce_node_consistency doms = Inr doms1" and wd1: "wf_domains cw doms1"
    and nc1: "node_consistent doms1" and wi1: "within_domains doms1 s" by blast
  from ac3_ok[OF wf ks sem(3) wd1 nc1 wi1] obtain b doms2 where
    a3: "ac3 cw doms1 None = (Inr b, doms2)" and wd2: "wf_domains cw doms2"
    and nc2: "node_consistent doms2" and wi2: "within_domains doms2 s" by blast
  have "\<exists>s. set ([] :: assignment) \<subseteq> set s \<and> distinct (map fst s) \<and>
           set (map fst s) = set (variables cw) \<and> within_domains doms2 s \<and>
           words_distinct s \<and> lengths_match s \<and> crossings_agree cw s"
    using ds ks wi2 sem by auto
  with backtrack_calls_complete[OF wf wd2 nc2, of "[]"] obtain a n where
    bt: "backtrack_calls cw doms2 [] = Inr (Some a, n)" by auto
  with e a3 have s: "solve cw doms = Inr (Some a)"
    by (simp add: solve_def solve_calls_def)
  from wd2 have d2: "distinct (map fst doms2)" and k2: "set (map fst doms2) = set (variables cw)"
    by (simp_all add: wf_domains_def)
  from backtrack_calls_sound[OF d2 _ _ consistent_empty bt] k2
  have "distinct (map fst a) \<and> set (map fst a) = set (variables cw) \<and>
        consistent cw a = Inr True" by simp
  with s show ?thesis by blast
qed

theorem solve_complete_witness:
  "\<exists>a. solve (ex_crossword ex_words3) (init_domains (ex_crossword ex_words3)) = Inr (Some a) \<and>
     distinct (map fst a) \<and>
     set (map fst a) = set (variables (ex_crossword ex_words3)) \<and>
     consistent (ex_crossword ex_words3) a = Inr True"
proof -
  have "solution (ex_crossword ex_words3) (init_domains (ex_crossword ex_words3)) ex_solution"
    by code_simp
  from solve_complete[OF ex_wf_crossword init_domains_wf[OF ex_wf_crossword] this]
  show ?thesis .
qed

end
